theory Spec2Isabelle
  imports Complex_Main "HOL-Library.AList" "HOL-Library.Log_Nat"
begin

section \<open>Strings\<close>

text \<open>
  Texts are lists of \<^typ>\<open>char\<close>: one \<^typ>\<open>char\<close> stands for one UTF-16 code unit below 256.
  The helpers below are the JavaScript string operations the answering code calls, on that
  range of code units.
\<close>

definition is_digit :: "char \<Rightarrow> bool" where
  \<comment> \<open>the regular expression class \<open>\d\<close>: the ten ASCII digits\<close>
  "is_digit c = (c \<in> set ''0123456789'')"

definition digit_val :: "char \<Rightarrow> nat" where
  "digit_val c = of_char c - 48"

definition parseInt :: "string \<Rightarrow> nat" where
  \<comment> \<open>\<open>parseInt(num, 10)\<close> on a non-empty string of ASCII digits. The source compares the
      result only with array lengths and with 0; a double that has lost precision is above
      \<open>2^53\<close>, so these comparisons agree with the exact value.\<close>
  "parseInt ds = foldl (\<lambda>n c. 10 * n + digit_val c) 0 ds"

definition digit_char :: "nat \<Rightarrow> char" where
  "digit_char n = char_of (48 + n)"

function show_nat :: "nat \<Rightarrow> string" where
  \<comment> \<open>a number interpolated into a template literal: its decimal digits\<close>
  "show_nat n = (if n < 10 then [digit_char n] else show_nat (n div 10) @ [digit_char (n mod 10)])"
  by pat_completeness auto
termination
  by (relation "measure id") auto

definition is_js_space :: "char \<Rightarrow> bool" where
  \<comment> \<open>white space and line terminators removed by \<open>String.prototype.trim\<close>, below 256\<close>
  "is_js_space c = (of_char c \<in> {9, 10, 11, 12, 13, 32, 160 :: nat})"

definition trim :: "string \<Rightarrow> string" where
  "trim s = rev (dropWhile is_js_space (rev (dropWhile is_js_space s)))"

definition upper_char :: "char \<Rightarrow> string" where
  \<comment> \<open>\<open>toUpperCase\<close> of one code unit: ASCII and Latin-1 letters move down by 32, the sharp s
      becomes \<open>SS\<close>; the micro sign and y-diaeresis have their capitals above 255 and are
      kept as they are (neither capital is a letter of \<open>YES\<close>)\<close>
  "upper_char c =
     (let n = (of_char c :: nat) in
      if 97 \<le> n \<and> n \<le> 122 then [char_of (n - 32)]
      else if n = 223 then ''SS''
      else if 224 \<le> n \<and> n \<le> 254 \<and> n \<noteq> 247 then [char_of (n - 32)]
      else [c])"

definition toUpperCase :: "string \<Rightarrow> string" where
  "toUpperCase s = concat (map upper_char s)"

fun includes_str :: "string \<Rightarrow> string \<Rightarrow> bool" where
  \<comment> \<open>\<open>s.includes(sub)\<close>: \<open>sub\<close> occurs in \<open>s\<close> as a contiguous run\<close>
  "includes_str [] sub = (sub = [])"
| "includes_str (c # cs) sub = (take (length sub) (c # cs) = sub \<or> includes_str cs sub)"

fun join :: "string \<Rightarrow> string list \<Rightarrow> string" where
  \<comment> \<open>\<open>Array.prototype.join\<close>\<close>
  "join sep [] = []"
| "join sep [x] = x"
| "join sep (x # y # ys) = x @ sep @ join sep (y # ys)"

definition newline :: char where
  "newline = char_of (10 :: nat)"

section \<open>Numbers\<close>

text \<open>
  A JavaScript number is an IEEE 754 binary64 value. The model takes such a value as the
  rational it denotes and rounds the result of every addition and division to the nearest
  value with a significand of 53 bits, ties to the even significand (\<open>round64\<close>):
  \<open>expo x\<close> is the binary exponent of a positive \<open>x\<close>, \<open>rne\<close> rounds to the nearest integer,
  ties to even. The exponent is not bounded: overflow and subnormal values are not
  modelled, and the scores computed here stay far from both (a score is at most 2, and
  above \<open>2^-1022\<close> as long as \<open>k + index + 1\<close> is below \<open>2^1022\<close>). A number literal such as
  \<open>0.2\<close> is \<open>round64 (2 / 10)\<close>. Comparisons of two such values are exact.
\<close>

definition expo :: "rat \<Rightarrow> int" where
  "expo x =
     (let p = fst (quotient_of x); q = snd (quotient_of x); d = bitlen p - bitlen q in
      if 2 powi d \<le> x then d else d - 1)"

definition rne :: "rat \<Rightarrow> int" where
  "rne q =
     (let f = \<lfloor>q\<rfloor>; r = q - of_int f in
      if r < 1 / 2 then f else if 1 / 2 < r then f + 1 else if even f then f else f + 1)"

definition round64 :: "rat \<Rightarrow> rat" where
  "round64 x =
     (if x = 0 then 0
      else let a = \<bar>x\<bar>; u = 2 powi (expo a - 52) in sgn x * (of_int (rne (a / u)) * u))"

definition fadd :: "rat \<Rightarrow> rat \<Rightarrow> rat" where
  \<comment> \<open>\<open>a + b\<close> on numbers\<close>
  "fadd a b = round64 (a + b)"

definition fdiv :: "rat \<Rightarrow> rat \<Rightarrow> rat" where
  \<comment> \<open>\<open>a / b\<close> on numbers, \<open>b\<close> not zero\<close>
  "fdiv a b = round64 (a / b)"


text \<open>The number literals \<open>0.2\<close>, \<open>0.3\<close> and \<open>0.9\<close> of the source.\<close>

definition number_0_2 :: rat where
  "number_0_2 = round64 (2 / 10)"

definition number_0_3 :: rat where
  "number_0_3 = round64 (3 / 10)"

definition number_0_9 :: rat where
  "number_0_9 = round64 (9 / 10)"

section \<open>Citation tokens: the regular expression \<open>\[(\d+)\]\<close>\<close>

text \<open>
  \<open>match_citation s\<close> is a match of \<open>\[(\d+)\]\<close> anchored at the first character of \<open>s\<close>:
  the capture group and the text after the match. The group \<open>\d+\<close> is greedy; giving a digit
  back never helps, since the character after a shorter run is a digit and not \<open>]\<close>.
\<close>

definition match_citation :: "string \<Rightarrow> (string \<times> string) option" where
  "match_citation s =
     (case s of
        [] \<Rightarrow> None
      | c # cs \<Rightarrow>
          if c = CHR ''['' then
            (let ds = takeWhile is_digit cs; rest = dropWhile is_digit cs in
             if ds = [] then None
             else (case rest of
                     [] \<Rightarrow> None
                   | r # rs \<Rightarrow> if r = CHR '']'' then Some (ds, rs) else None))
          else None)"

text \<open>
  A global scan (\<open>replace\<close> with the \<open>g\<close> flag, or \<open>exec\<close> in a loop) walks the text from the
  left: where the expression matches, the match is consumed and the scan goes on after it;
  elsewhere one character is passed over. \<open>pieces\<close> is the outcome of that walk.
\<close>

datatype piece = Text char | Token string

function pieces :: "string \<Rightarrow> piece list" where
  "pieces [] = []"
| "pieces (c # cs) =
     (case match_citation (c # cs) of
        None \<Rightarrow> Text c # pieces cs
      | Some (ds, rest) \<Rightarrow> Token ds # pieces rest)"
  by pat_completeness auto
termination
proof (relation "measure length")
  fix c :: char and cs ds rest x2
  assume "match_citation (c # cs) = Some x2" and "(ds, rest) = x2"
  then obtain r where "dropWhile is_digit cs = r # rest"
    by (auto simp: match_citation_def Let_def split: if_splits list.splits)
  then have "length (r # rest) \<le> length cs"
    by (metis length_dropWhile_le)
  then show "(rest, c # cs) \<in> measure length"
    by simp
qed simp_all

definition token_text :: "string \<Rightarrow> string" where
  \<comment> \<open>the matched text \<open>match\<close> of a token whose group is \<open>ds\<close>\<close>
  "token_text ds = ''['' @ ds @ '']''"

definition replace_citations :: "(string \<Rightarrow> string) \<Rightarrow> string \<Rightarrow> string" where
  \<comment> \<open>\<open>text.replace(/\[(\d+)\]/g, f)\<close>, \<open>f\<close> given the capture group\<close>
  "replace_citations f text =
     concat (map (\<lambda>p. case p of Text c \<Rightarrow> [c] | Token ds \<Rightarrow> f ds) (pieces text))"

definition regex_matches :: "string \<Rightarrow> string list" where
  \<comment> \<open>the capture groups \<open>match[1]\<close> of the successive \<open>citationRegex.exec\<close> calls\<close>
  "regex_matches text = concat (map (\<lambda>p. case p of Text c \<Rightarrow> [] | Token ds \<Rightarrow> [ds]) (pieces text))"

definition cleanInvalidCitations :: "string \<Rightarrow> nat \<Rightarrow> string" where
  "cleanInvalidCitations text maxValidCitation =
     (if maxValidCitation = 0 then replace_citations (\<lambda>num. []) text
      else replace_citations
             (\<lambda>num. let citationNum = parseInt num in
                     if citationNum > maxValidCitation then [] else token_text num) text)"

section \<open>Search results, citations and answers\<close>

datatype Mode = Internal | Customer

record SearchResult =
  id_sr :: int
  content :: string
  source_type :: string
  source_id :: string
  channel_id :: "string option"
  author :: "string option"
  timestamp :: "int option"
  permalink :: "string option"
  is_source_of_truth :: bool
  is_customer_safe :: bool
  metadata :: "string option"
  similarity :: rat

text \<open>
  The field \<open>id\<close> of the source is \<open>id_sr\<close> here. A \<open>Date\<close> is its number of milliseconds,
  \<open>metadata\<close> an opaque text. A score is a number, given by the rational it denotes.
\<close>

record Citation =
  source_id_c :: string
  content_c :: string
  author_c :: "string option"
  timestamp_c :: "int option"
  permalink_c :: "string option"
  is_customer_safe_c :: bool

record AnswerWithCitations =
  answer :: string
  citations :: "Citation list"
  mode :: Mode
  canCiteForCustomer :: bool

datatype error = Thrown string

text \<open>
  The two calls of \<open>generateText\<close>. Each prompt is a fixed template around the values a
  request carries here: the relevance check (model \<open>gpt-4o-mini\<close>, temperature 0) has the
  query and the numbered snippets; the answer call (temperature 0.1) has the mode, which
  selects the system prompt, the numbered sources, the query and the number of sources.
\<close>

datatype gen_call =
  RelevancePrompt string string
| AnswerPrompt Mode string string nat

type_synonym generator = "gen_call \<Rightarrow> error + string"

definition msg_no_results :: string where
  "msg_no_results = ''I don't have enough information in the knowledge base to answer this question. Please try rephrasing your question or check if the information has been added to the system.''"

definition msg_internal_only :: string where
  "msg_internal_only = ''I found some information, but it's marked as internal-only and cannot be shared with customers. Please consider creating an approved knowledge article or contact the internal team for this information.''"

definition msg_not_relevant :: string where
  "msg_not_relevant = ''I don't have enough information in the knowledge base to answer this question.''"

definition numbered :: "(nat \<Rightarrow> 'a \<Rightarrow> 'b) \<Rightarrow> 'a list \<Rightarrow> 'b list" where
  \<comment> \<open>\<open>xs.map((r, i) => f i r)\<close>\<close>
  "numbered f xs = map (\<lambda>(i, r). f i r) (zip [0 ..< length xs] xs)"

definition relevanceContext_of :: "SearchResult list \<Rightarrow> string" where
  "relevanceContext_of relevantResults =
     join [newline, newline]
       (numbered (\<lambda>i r. ''['' @ show_nat (i + 1) @ ''] '' @ take 500 (content r))
          (take 10 relevantResults))"

definition context_of :: "SearchResult list \<Rightarrow> string" where
  "context_of relevantResults =
     join ([newline, newline] @ ''---'' @ [newline, newline])
       (numbered (\<lambda>i r. ''[Source '' @ show_nat (i + 1) @ '']'' @ [newline] @ content r)
          relevantResults)"

definition set_add :: "nat \<Rightarrow> nat list \<Rightarrow> nat list" where
  \<comment> \<open>\<open>Set.prototype.add\<close>; a \<open>Set\<close> keeps its members in the order of their first insertion\<close>
  "set_add x xs = (if x \<in> set xs then xs else xs @ [x])"

definition note_citation :: "nat \<Rightarrow> nat list \<Rightarrow> string \<Rightarrow> nat list" where
  \<comment> \<open>the body of the \<open>while\<close> loop over \<open>citationRegex.exec(cleanedAnswer)\<close>, given
      \<open>match[1]\<close>\<close>
  "note_citation n used num =
     (let citationIndex = parseInt num in
      if citationIndex > 0 \<and> citationIndex \<le> n then set_add (citationIndex - 1) used
      else used)"

definition usedCitationIndices_of :: "string \<Rightarrow> nat \<Rightarrow> nat list" where
  "usedCitationIndices_of cleanedAnswer n =
     foldl (note_citation n) [] (regex_matches cleanedAnswer)"

definition nth_opt :: "'a list \<Rightarrow> nat \<Rightarrow> 'a option" where
  \<comment> \<open>\<open>xs[i]\<close>, \<open>undefined\<close> out of range\<close>
  "nth_opt xs i = (if i < length xs then Some (xs ! i) else None)"

definition toCitation :: "SearchResult \<Rightarrow> Citation" where
  "toCitation result =
     \<lparr> source_id_c = source_id result,
       content_c = content result,
       author_c = author result,
       timestamp_c = timestamp result,
       permalink_c = permalink result,
       is_customer_safe_c = is_customer_safe result \<rparr>"

definition citations_of :: "nat list \<Rightarrow> SearchResult list \<Rightarrow> Citation list" where
  \<comment> \<open>\<open>Array.from(usedCitationIndices).sort(...).map(...).filter(...).map(...)\<close>\<close>
  "citations_of usedCitationIndices relevantResults =
     map toCitation
       (List.map_filter (\<lambda>index. nth_opt relevantResults index) (sort usedCitationIndices))"

definition relevantResults_of :: "Mode \<Rightarrow> SearchResult list \<Rightarrow> SearchResult list" where
  "relevantResults_of md searchResults =
     (if md = Customer then filter is_customer_safe searchResults else searchResults)"

definition isRelevant_of :: "string \<Rightarrow> bool" where
  \<comment> \<open>\<open>relevanceCheck.trim().toUpperCase().includes('YES')\<close>\<close>
  "isRelevant_of relevanceCheck = includes_str (toUpperCase (trim relevanceCheck)) ''YES''"

definition generateAnswerWithCitations ::
  "generator \<Rightarrow> string \<Rightarrow> SearchResult list \<Rightarrow> Mode
     \<Rightarrow> gen_call list \<times> (error + AnswerWithCitations)" where
  \<comment> \<open>the result comes with the \<open>generateText\<close> calls made, in order; a rejected call ends
      the function with that error\<close>
  "generateAnswerWithCitations generateText query searchResults md =
     (if length searchResults = 0 then
        ([], Inr \<lparr> answer = msg_no_results, citations = [], mode = md,
                   canCiteForCustomer = False \<rparr>)
      else
        let relevantResults = relevantResults_of md searchResults;
            hasCustomerSafeSources = list_ex is_customer_safe searchResults
        in
        if md = Customer \<and> length relevantResults = 0 then
          ([], Inr \<lparr> answer = msg_internal_only, citations = [], mode = md,
                     canCiteForCustomer = False \<rparr>)
        else
          let relevanceCall = RelevancePrompt query (relevanceContext_of relevantResults) in
          case generateText relevanceCall of
            Inl e \<Rightarrow> ([relevanceCall], Inl e)
          | Inr relevanceCheck \<Rightarrow>
              let isRelevant = isRelevant_of relevanceCheck in
              if \<not> isRelevant then
                ([relevanceCall],
                 Inr \<lparr> answer = msg_not_relevant, citations = [], mode = md,
                       canCiteForCustomer = False \<rparr>)
              else
                let answerCall =
                      AnswerPrompt md (context_of relevantResults) query (length relevantResults)
                in
                case generateText answerCall of
                  Inl e \<Rightarrow> ([relevanceCall, answerCall], Inl e)
                | Inr rawAnswer \<Rightarrow>
                    let cleanedAnswer =
                          cleanInvalidCitations rawAnswer (length relevantResults);
                        usedCitationIndices =
                          usedCitationIndices_of cleanedAnswer (length relevantResults)
                    in
                    ([relevanceCall, answerCall],
                     Inr \<lparr> answer = trim cleanedAnswer,
                           citations = citations_of usedCitationIndices relevantResults,
                           mode = md,
                           canCiteForCustomer =
                             (if md = Customer then hasCustomerSafeSources else True) \<rparr>))"

section \<open>Reciprocal rank fusion\<close>

text \<open>
  \<open>scoresMap\<close> is a \<open>Map\<close> from fragment id to \<open>{result, score}\<close>. A \<open>Map\<close> lists its entries
  in the order in which their keys were first set, so it is an association list here:
  \<^const>\<open>AList.update\<close> replaces the value of a key that is present, in place, and puts a
  new key at the end. The parameter \<open>k\<close> is a natural number (the only call passes the
  default 60).
\<close>

record entry =
  result :: SearchResult
  score :: rat

type_synonym scores_map = "(int \<times> entry) list"

definition rrfScore_at :: "nat \<Rightarrow> nat \<Rightarrow> rat" where
  \<comment> \<open>\<open>1 / (k + index + 1)\<close>\<close>
  "rrfScore_at k index = fdiv 1 (fadd (fadd (of_nat k) (of_nat index)) 1)"

definition add_vector :: "nat \<Rightarrow> scores_map \<Rightarrow> nat \<times> SearchResult \<Rightarrow> scores_map" where
  \<comment> \<open>one round of \<open>vectorResults.forEach\<close>\<close>
  "add_vector k scoresMap ir =
     (let index = fst ir; r = snd ir; rrfScore = rrfScore_at k index in
      AList.update (id_sr r) \<lparr> result = r\<lparr>similarity := rrfScore\<rparr>, score = rrfScore \<rparr>
        scoresMap)"

definition add_keyword :: "nat \<Rightarrow> scores_map \<Rightarrow> nat \<times> SearchResult \<Rightarrow> scores_map" where
  \<comment> \<open>one round of \<open>keywordResults.forEach\<close>\<close>
  "add_keyword k scoresMap ir =
     (let index = fst ir; r = snd ir; rrfScore = rrfScore_at k index in
      case map_of scoresMap (id_sr r) of
        Some existing \<Rightarrow>
          let combinedScore = fadd (score existing) rrfScore in
          AList.update (id_sr r)
            \<lparr> result = (result existing)\<lparr>similarity := combinedScore\<rparr>,
              score = combinedScore \<rparr> scoresMap
      | None \<Rightarrow>
          AList.update (id_sr r) \<lparr> result = r\<lparr>similarity := rrfScore\<rparr>, score = rrfScore \<rparr>
            scoresMap)"

definition scoresMap_of :: "SearchResult list \<Rightarrow> SearchResult list \<Rightarrow> nat \<Rightarrow> scores_map" where
  \<comment> \<open>the map after both loops\<close>
  "scoresMap_of vectorResults keywordResults k =
     foldl (add_keyword k) (foldl (add_vector k) [] (List.enumerate 0 vectorResults))
       (List.enumerate 0 keywordResults)"

definition sort_by_score :: "entry list \<Rightarrow> entry list" where
  \<comment> \<open>\<open>.sort((a, b) => b.score - a.score)\<close>: descending by score (the difference of two
      numbers has the sign of their exact difference); \<open>Array.prototype.sort\<close> is stable, as
      is the insertion sort \<^const>\<open>sort_key\<close>\<close>
  "sort_by_score es = sort_key (\<lambda>e. - score e) es"

definition sorted_of :: "SearchResult list \<Rightarrow> SearchResult list \<Rightarrow> nat \<Rightarrow> entry list" where
  "sorted_of vectorResults keywordResults k =
     sort_by_score (map snd (scoresMap_of vectorResults keywordResults k))"

definition maxScore_of :: "entry list \<Rightarrow> rat" where
  \<comment> \<open>\<open>sorted[0]?.score || 1\<close>\<close>
  "maxScore_of sortedEntries =
     (case sortedEntries of [] \<Rightarrow> 1 | e # es \<Rightarrow> if score e = 0 then 1 else score e)"

definition reciprocalRankFusion ::
  "SearchResult list \<Rightarrow> SearchResult list \<Rightarrow> nat \<Rightarrow> SearchResult list" where
  "reciprocalRankFusion vectorResults keywordResults k =
     (let sortedEntries = sorted_of vectorResults keywordResults k;
          maxScore = maxScore_of sortedEntries
      in map (\<lambda>item. (result item)\<lparr>similarity := fdiv (similarity (result item)) maxScore\<rparr>)
           sortedEntries)"

text \<open>
  To state what the loops build: the condition every entry of the map meets, the entry a
  round of the first loop writes, the entry a round of the second loop writes over what
  the map has for the key, and the score the map has for a fragment before normalisation.
\<close>

definition entry_ok :: "int \<times> entry \<Rightarrow> bool" where
  "entry_ok p = (id_sr (result (snd p)) = fst p \<and> similarity (result (snd p)) = score (snd p)
                 \<and> 0 < score (snd p))"

definition vector_entry :: "nat \<Rightarrow> nat \<times> SearchResult \<Rightarrow> int \<times> entry" where
  "vector_entry k ir =
     (id_sr (snd ir),
      \<lparr> result = (snd ir)\<lparr>similarity := rrfScore_at k (fst ir)\<rparr>,
        score = rrfScore_at k (fst ir) \<rparr>)"

definition merged_entry :: "nat \<Rightarrow> entry option \<Rightarrow> nat \<times> SearchResult \<Rightarrow> entry" where
  "merged_entry k old ir =
     (case old of
        Some existing \<Rightarrow>
          \<lparr> result = (result existing)\<lparr>similarity := fadd (score existing) (rrfScore_at k (fst ir))\<rparr>,
            score = fadd (score existing) (rrfScore_at k (fst ir)) \<rparr>
      | None \<Rightarrow>
          \<lparr> result = (snd ir)\<lparr>similarity := rrfScore_at k (fst ir)\<rparr>,
            score = rrfScore_at k (fst ir) \<rparr>)"

definition raw_score :: "SearchResult list \<Rightarrow> SearchResult list \<Rightarrow> nat \<Rightarrow> int \<Rightarrow> rat option" where
  "raw_score vs ks k x = map_option score (map_of (scoresMap_of vs ks k) x)"

text \<open>An entry made from one of the rows of a set: that row with another score.\<close>

definition from_input :: "SearchResult set \<Rightarrow> int \<times> entry \<Rightarrow> bool" where
  "from_input S p = (\<exists>r \<in> S. \<exists>x. result (snd p) = r\<lparr>similarity := x\<rparr>)"

section \<open>Retrieval\<close>

text \<open>
  The embedding service, the store and the generation service are parameters. A query sent
  to the store is the SQL text the source builds, given by what varies in it: the channel
  with its first parameter, the clauses appended to \<open>WHERE\<close>, and the \<open>LIMIT\<close> parameter.
\<close>

record SearchOptions =
  limit_opt :: "int option"
  customerSafeOnly_opt :: "bool option"
  sourceOfTruthOnly_opt :: "bool option"
  channelId_opt :: "string option"
  minSimilarity_opt :: "rat option"

datatype query_kind = VectorSql "rat list" | KeywordSql string

record store_query =
  kind :: query_kind
  safe_clause :: bool
  truth_clause :: bool
  channel_clause :: "string option"
  limit_param :: int

record services =
  embed :: "string \<Rightarrow> error + rat list"
  pool_query :: "store_query \<Rightarrow> error + SearchResult list"
  generateText :: generator
  keyword_rejects_first :: bool

text \<open>
  \<open>keyword_rejects_first\<close> settles which rejection \<open>Promise.all\<close> passes on when both
  queries fail: that of the query that fails first.
\<close>

datatype event =
  Embed string
| ConsoleError error
| Query store_query
| Generate gen_call

definition generateEmbedding :: "services \<Rightarrow> string \<Rightarrow> event list \<times> (error + rat list)" where
  "generateEmbedding sv text =
     (case embed sv text of
        Inr embedding \<Rightarrow> ([Embed text], Inr embedding)
      | Inl e \<Rightarrow> ([Embed text, ConsoleError e], Inl e))"

definition truthy_string :: "string option \<Rightarrow> bool" where
  \<comment> \<open>\<open>if (s)\<close> for a text that may be missing\<close>
  "truthy_string s = (case s of None \<Rightarrow> False | Some t \<Rightarrow> t \<noteq> [])"

definition slice0 :: "'a list \<Rightarrow> int \<Rightarrow> 'a list" where
  \<comment> \<open>\<open>xs.slice(0, n)\<close>; a negative end counts from the end of the array\<close>
  "slice0 xs n = (if n < 0 then take (nat (int (length xs) + n)) xs else take (nat n) xs)"

definition above_threshold :: "rat \<Rightarrow> SearchResult \<Rightarrow> bool" where
  \<comment> \<open>the callback of \<open>filter\<close>: \<open>(r.similarity || 0) >= minSimilarity\<close>\<close>
  "above_threshold minSimilarity r =
     (let sim = (if similarity r = 0 then 0 else similarity r) in sim \<ge> minSimilarity)"

definition await_all ::
  "services \<Rightarrow> error + SearchResult list \<Rightarrow> error + SearchResult list
     \<Rightarrow> error + (SearchResult list \<times> SearchResult list)" where
  \<comment> \<open>\<open>await Promise.all([a, b])\<close>\<close>
  "await_all sv a b =
     (case a of
        Inr rowsA \<Rightarrow> (case b of Inr rowsB \<Rightarrow> Inr (rowsA, rowsB) | Inl e \<Rightarrow> Inl e)
      | Inl e \<Rightarrow>
          (case b of
             Inr rowsB \<Rightarrow> Inl e
           | Inl e' \<Rightarrow> if keyword_rejects_first sv then Inl e' else Inl e))"

definition hybridSearch ::
  "services \<Rightarrow> string \<Rightarrow> SearchOptions \<Rightarrow> event list \<times> (error + SearchResult list)" where
  "hybridSearch sv query options =
     (let limit = (case limit_opt options of None \<Rightarrow> 10 | Some n \<Rightarrow> n);
          customerSafeOnly = (case customerSafeOnly_opt options of None \<Rightarrow> False | Some b \<Rightarrow> b);
          channelId = channelId_opt options;
          minSimilarity = (case minSimilarity_opt options of None \<Rightarrow> number_0_3 | Some x \<Rightarrow> x)
      in
      case generateEmbedding sv query of
        (events, Inl e) \<Rightarrow> (events, Inl e)
      | (events, Inr queryEmbedding) \<Rightarrow>
          let vectorSql =
                \<lparr> kind = VectorSql queryEmbedding, safe_clause = customerSafeOnly,
                  truth_clause = False,
                  channel_clause = (if truthy_string channelId then channelId else None),
                  limit_param = limit * 2 \<rparr>;
              keywordSql =
                \<lparr> kind = KeywordSql query, safe_clause = customerSafeOnly,
                  truth_clause = False,
                  channel_clause = (if truthy_string channelId then channelId else None),
                  limit_param = limit * 2 \<rparr>;
              events' = events @ [Query vectorSql, Query keywordSql]
          in
          case await_all sv (pool_query sv vectorSql) (pool_query sv keywordSql) of
            Inl e \<Rightarrow> (events', Inl e)
          | Inr (vectorRows, keywordRows) \<Rightarrow>
              let merged = reciprocalRankFusion vectorRows keywordRows 60;
                  filtered = filter (above_threshold minSimilarity) merged;
                  finalResults = slice0 filtered limit
              in (events', Inr finalResults))"

definition searchKnowledge ::
  "services \<Rightarrow> string \<Rightarrow> SearchOptions \<Rightarrow> event list \<times> (error + SearchResult list)" where
  "searchKnowledge sv query options =
     (let limit = (case limit_opt options of None \<Rightarrow> 5 | Some n \<Rightarrow> n);
          customerSafeOnly = (case customerSafeOnly_opt options of None \<Rightarrow> False | Some b \<Rightarrow> b);
          sourceOfTruthOnly =
            (case sourceOfTruthOnly_opt options of None \<Rightarrow> False | Some b \<Rightarrow> b);
          channelId = channelId_opt options;
          minSimilarity = (case minSimilarity_opt options of None \<Rightarrow> number_0_3 | Some x \<Rightarrow> x)
      in
      case generateEmbedding sv query of
        (events, Inl e) \<Rightarrow> (events, Inl e)
      | (events, Inr queryEmbedding) \<Rightarrow>
          let sql =
                \<lparr> kind = VectorSql queryEmbedding, safe_clause = customerSafeOnly,
                  truth_clause = sourceOfTruthOnly,
                  channel_clause = (if truthy_string channelId then channelId else None),
                  limit_param = limit * 2 \<rparr>;
              events' = events @ [Query sql]
          in
          case pool_query sv sql of
            Inl e \<Rightarrow> (events', Inl e)
          | Inr rows \<Rightarrow>
              let filtered = filter (above_threshold minSimilarity) rows;
                  finalResults = slice0 filtered limit
              in (events', Inr finalResults))"

section \<open>The route \<open>POST /api/ask\<close>\<close>

record AskQuestionBody =
  question_b :: "string option"
  mode_b :: "string option"
  limit_b :: "int option"
  useHybrid_b :: "bool option"
  minSimilarity_b :: "rat option"

record ask_payload =
  question_r :: string
  answer_r :: string
  mode_r :: Mode
  searchMethod_r :: string
  canCiteForCustomer_r :: bool
  citations_r :: "(nat \<times> Citation) list"

datatype response =
  Status400 string
| Status500 string
| Json200 ask_payload

definition retrieve_for_ask ::
  "services \<Rightarrow> string \<Rightarrow> string \<Rightarrow> int \<Rightarrow> bool \<Rightarrow> rat
     \<Rightarrow> event list \<times> (error + SearchResult list)" where
  \<comment> \<open>\<open>searchFn(question, {limit, customerSafeOnly: mode === 'customer', minSimilarity})\<close>\<close>
  "retrieve_for_ask sv question md limit useHybrid minSimilarity =
     (let searchFn = (if useHybrid then hybridSearch else searchKnowledge) in
      searchFn sv question
        \<lparr> limit_opt = Some limit, customerSafeOnly_opt = Some (md = ''customer''),
          sourceOfTruthOnly_opt = None, channelId_opt = None,
          minSimilarity_opt = Some minSimilarity \<rparr>)"

definition msg_bad_mode :: string where
  \<open>msg_bad_mode = ''Mode must be "internal" or "customer"''\<close>

text \<open>The destructuring of \<open>req.body\<close>, with its defaults.\<close>

definition ask_mode :: "AskQuestionBody \<Rightarrow> string" where
  "ask_mode body = (case mode_b body of None \<Rightarrow> ''internal'' | Some m \<Rightarrow> m)"

definition ask_limit :: "AskQuestionBody \<Rightarrow> int" where
  "ask_limit body = (case limit_b body of None \<Rightarrow> 5 | Some n \<Rightarrow> n)"

definition ask_useHybrid :: "AskQuestionBody \<Rightarrow> bool" where
  "ask_useHybrid body = (case useHybrid_b body of None \<Rightarrow> True | Some b \<Rightarrow> b)"

definition ask_minSimilarity :: "AskQuestionBody \<Rightarrow> rat" where
  "ask_minSimilarity body = (case minSimilarity_b body of None \<Rightarrow> number_0_2 | Some x \<Rightarrow> x)"

definition ask_route :: "services \<Rightarrow> AskQuestionBody \<Rightarrow> event list \<times> response" where
  "ask_route sv body =
     (let question = question_b body;
          md = ask_mode body;
          limit = ask_limit body;
          useHybrid = ask_useHybrid body;
          minSimilarity = ask_minSimilarity body
      in
      if \<not> truthy_string question then ([], Status400 ''Question is required'')
      else if md \<noteq> ''internal'' \<and> md \<noteq> ''customer'' then
        ([], Status400 msg_bad_mode)
      else
        case retrieve_for_ask sv (the question) md limit useHybrid minSimilarity of
          (events, Inl e) \<Rightarrow> (events, Status500 ''Failed to process question'')
        | (events, Inr results) \<Rightarrow>
            (case generateAnswerWithCitations (generateText sv) (the question) results
                    (if md = ''customer'' then Customer else Internal) of
               (calls, Inl e) \<Rightarrow>
                 (events @ map Generate calls, Status500 ''Failed to process question'')
             | (calls, Inr ans) \<Rightarrow>
                 (events @ map Generate calls,
                  Json200
                    \<lparr> question_r = the question,
                      answer_r = answer ans,
                      mode_r = mode ans,
                      searchMethod_r = (if useHybrid then ''hybrid'' else ''vector''),
                      canCiteForCustomer_r = canCiteForCustomer ans,
                      citations_r = numbered (\<lambda>i cite. (i + 1, cite)) (citations ans) \<rparr>)))"

text \<open>
  The store is outside the repository. \<open>store_honours_safe_clause\<close> says that it answers a
  query that carries the clause \<open>AND is_customer_safe = true\<close> with customer-safe rows only.
\<close>

definition store_honours_safe_clause :: "services \<Rightarrow> bool" where
  "store_honours_safe_clause sv =
     (\<forall>q rows. safe_clause q \<longrightarrow> pool_query sv q = Inr rows \<longrightarrow>
        (\<forall>r \<in> set rows. is_customer_safe r))"

text \<open>
  The two queries of a customer request: the vector query (of \<open>hybridSearch\<close> and of
  \<open>searchKnowledge\<close> alike, for the options the route passes) and the keyword query, both
  with the clause \<open>AND is_customer_safe = true\<close>.
\<close>

definition customer_vector_query :: "rat list \<Rightarrow> int \<Rightarrow> store_query" where
  "customer_vector_query queryEmbedding limit =
     \<lparr> kind = VectorSql queryEmbedding, safe_clause = True, truth_clause = False,
       channel_clause = None, limit_param = limit * 2 \<rparr>"

definition customer_keyword_query :: "string \<Rightarrow> int \<Rightarrow> store_query" where
  "customer_keyword_query query limit =
     \<lparr> kind = KeywordSql query, safe_clause = True, truth_clause = False,
       channel_clause = None, limit_param = limit * 2 \<rparr>"

text \<open>The response body for a customer question when retrieval finds nothing.\<close>

definition no_results_payload :: "string \<Rightarrow> bool \<Rightarrow> ask_payload" where
  "no_results_payload q useHybrid =
     \<lparr> question_r = q, answer_r = msg_no_results, mode_r = Customer,
       searchMethod_r = (if useHybrid then ''hybrid'' else ''vector''),
       canCiteForCustomer_r = False, citations_r = [] \<rparr>"

definition is_generate :: "event \<Rightarrow> bool" where
  "is_generate ev = (case ev of Generate c \<Rightarrow> True | _ \<Rightarrow> False)"

definition queries_of :: "event list \<Rightarrow> store_query list" where
  "queries_of events = concat (map (\<lambda>ev. case ev of Query q \<Rightarrow> [q] | _ \<Rightarrow> []) events)"

section \<open>Example inputs\<close>

text \<open>
  \<open>createMockResult\<close> is the helper of the repository's citation tests (with a fixed
  timestamp); \<open>scripted\<close> is a generation service that gives one fixed relevance verdict and
  one fixed answer text.
\<close>

definition createMockResult :: "nat \<Rightarrow> string \<Rightarrow> bool \<Rightarrow> SearchResult" where
  "createMockResult i text isCustomerSafe =
     \<lparr> id_sr = int i, content = text, source_type = ''slack'',
       source_id = ''msg_'' @ show_nat i, channel_id = Some ''C123'',
       author = Some ''Test User'', timestamp = Some 0,
       permalink = Some (''https://slack.com/msg_'' @ show_nat i),
       is_source_of_truth = False, is_customer_safe = isCustomerSafe,
       metadata = None, similarity = number_0_9 \<rparr>"

definition scripted :: "string \<Rightarrow> string \<Rightarrow> generator" where
  "scripted verdict raw call =
     (case call of RelevancePrompt q ctx \<Rightarrow> Inr verdict | AnswerPrompt m ctx q n \<Rightarrow> Inr raw)"

definition internal_sources :: "SearchResult list" where
  "internal_sources =
     [createMockResult 1 ''Internal only discussion'' False,
      createMockResult 2 ''Team planning notes'' False]"

definition mixed_sources :: "SearchResult list" where
  "mixed_sources =
     [createMockResult 1 ''Internal debugging notes'' False,
      createMockResult 2 ''Public help article about authentication'' True,
      createMockResult 3 ''Team slack discussion'' False,
      createMockResult 4 ''Official API documentation'' True]"

definition two_sources :: "SearchResult list" where
  "two_sources =
     [createMockResult 1 ''Deployments happen during business hours'' True,
      createMockResult 2 ''We also use automated rollbacks'' False]"

definition one_source :: "SearchResult list" where
  "one_source = [createMockResult 1 ''Only one source available'' True]"

definition semantic_example :: "SearchResult list" where
  "semantic_example = [createMockResult 1 ''F1'' True, createMockResult 2 ''F2'' True]"

definition lexical_example :: "SearchResult list" where
  "lexical_example = [createMockResult 2 ''F2'' True, createMockResult 3 ''F3'' False]"

definition lexical_disjoint :: "SearchResult list" where
  "lexical_disjoint = [createMockResult 3 ''F3'' False]"

text \<open>
  Two lists for \<open>k = 5\<close> in which fragment 5 has ranks 4 and 9: its contributions \<open>1/10\<close> and
  \<open>1/15\<close> add up to the \<open>1/6\<close> of fragment 1 in exact arithmetic, not as numbers.
\<close>

definition tie_semantic :: "SearchResult list" where
  "tie_semantic = map (\<lambda>i. createMockResult i ''F'' True) [1, 2, 3, 4, 5]"

definition tie_lexical :: "SearchResult list" where
  "tie_lexical = map (\<lambda>i. createMockResult i ''F'' True) [11, 12, 13, 14, 15, 16, 17, 18, 19, 5]"

text \<open>
  Services whose embedding call fails; services whose store holds internal rows only, and
  services whose store holds rows of both kinds, both honouring the customer-safe clause;
  a customer question for the vector search alone, and one with every default.
\<close>

definition down_services :: services where
  "down_services =
     \<lparr> embed = (\<lambda>text. Inl (Thrown ''embedding service unavailable'')),
       pool_query = (\<lambda>q. Inr mixed_sources),
       generateText = scripted ''YES'' ''Use tokens [1].'',
       keyword_rejects_first = False \<rparr>"

definition internal_only_services :: services where
  "internal_only_services =
     \<lparr> embed = (\<lambda>text. Inr [1 / 2, 1 / 4]),
       pool_query =
         (\<lambda>q. Inr (if safe_clause q then filter is_customer_safe internal_sources
                    else internal_sources)),
       generateText = scripted ''YES'' ''Deploy on Fridays [1].'',
       keyword_rejects_first = False \<rparr>"

definition mixed_store_services :: services where
  "mixed_store_services =
     \<lparr> embed = (\<lambda>text. Inr [1 / 2, 1 / 4]),
       pool_query =
         (\<lambda>q. Inr (if safe_clause q then filter is_customer_safe mixed_sources
                    else mixed_sources)),
       generateText = scripted ''YES'' ''Use tokens [1], see [2].'',
       keyword_rejects_first = False \<rparr>"

definition vector_customer_body :: AskQuestionBody where
  "vector_customer_body =
     \<lparr> question_b = Some ''How does authentication work?'', mode_b = Some ''customer'',
       limit_b = None, useHybrid_b = Some False, minSimilarity_b = None \<rparr>"

definition customer_body :: AskQuestionBody where
  "customer_body =
     \<lparr> question_b = Some ''What is the deployment process?'', mode_b = Some ''customer'',
       limit_b = None, useHybrid_b = None, minSimilarity_b = None \<rparr>"

section \<open>The outcomes of \<open>generateAnswerWithCitations\<close>\<close>

lemma generate_no_results:
  "generateAnswerWithCitations g q [] md =
     ([], Inr \<lparr> answer = msg_no_results, citations = [], mode = md,
                canCiteForCustomer = False \<rparr>)"
  by (simp add: generateAnswerWithCitations_def)

lemma generate_Inr_cases:
  assumes "generateAnswerWithCitations g q rs md = (calls, Inr a)"
  obtains
    (no_results) "rs = []" "calls = []"
      "a = \<lparr> answer = msg_no_results, citations = [], mode = md, canCiteForCustomer = False \<rparr>"
  | (blocked) "rs \<noteq> []" "md = Customer" "relevantResults_of md rs = []" "calls = []"
      "a = \<lparr> answer = msg_internal_only, citations = [], mode = md, canCiteForCustomer = False \<rparr>"
  | (irrelevant) verdict where "rs \<noteq> []" "relevantResults_of md rs \<noteq> []"
      "g (RelevancePrompt q (relevanceContext_of (relevantResults_of md rs))) = Inr verdict"
      "\<not> isRelevant_of verdict"
      "calls = [RelevancePrompt q (relevanceContext_of (relevantResults_of md rs))]"
      "a = \<lparr> answer = msg_not_relevant, citations = [], mode = md, canCiteForCustomer = False \<rparr>"
  | (answered) verdict raw where "rs \<noteq> []" "relevantResults_of md rs \<noteq> []"
      "g (RelevancePrompt q (relevanceContext_of (relevantResults_of md rs))) = Inr verdict"
      "isRelevant_of verdict"
      "g (AnswerPrompt md (context_of (relevantResults_of md rs)) q
            (length (relevantResults_of md rs))) = Inr raw"
      "calls = [RelevancePrompt q (relevanceContext_of (relevantResults_of md rs)),
                AnswerPrompt md (context_of (relevantResults_of md rs)) q
                  (length (relevantResults_of md rs))]"
      "a = \<lparr> answer = trim (cleanInvalidCitations raw (length (relevantResults_of md rs))),
             citations =
               citations_of
                 (usedCitationIndices_of
                    (cleanInvalidCitations raw (length (relevantResults_of md rs)))
                    (length (relevantResults_of md rs)))
                 (relevantResults_of md rs),
             mode = md,
             canCiteForCustomer = (if md = Customer then list_ex is_customer_safe rs else True) \<rparr>"
proof (cases "rs = []")
  case True
  with assms no_results show ?thesis
    by (simp add: generateAnswerWithCitations_def)
next
  case ne: False
  show ?thesis
  proof (cases "md = Customer \<and> relevantResults_of md rs = []")
    case True
    with assms ne have "calls = []"
      and "a = \<lparr> answer = msg_internal_only, citations = [], mode = md,
                  canCiteForCustomer = False \<rparr>"
      by (auto simp: generateAnswerWithCitations_def Let_def)
    with True ne blocked show ?thesis
      by blast
  next
    case nb: False
    have rel: "relevantResults_of md rs \<noteq> []"
      using nb ne by (cases md) (auto simp: relevantResults_of_def)
    from assms ne nb obtain verdict where
      v: "g (RelevancePrompt q (relevanceContext_of (relevantResults_of md rs))) = Inr verdict"
      by (auto simp: generateAnswerWithCitations_def Let_def split: sum.splits)
    show ?thesis
    proof (cases "isRelevant_of verdict")
      case False
      with assms ne nb v irrelevant [OF ne rel v] show ?thesis
        by (auto simp: generateAnswerWithCitations_def Let_def)
    next
      case True
      from assms ne nb v True obtain raw where
        r: "g (AnswerPrompt md (context_of (relevantResults_of md rs)) q
            (length (relevantResults_of md rs))) = Inr raw"
        by (auto simp: generateAnswerWithCitations_def Let_def split: sum.splits)
      with assms ne nb v True answered [OF ne rel v True r] show ?thesis
        by (auto simp: generateAnswerWithCitations_def Let_def)
    qed
  qed
qed

lemma citations_of_eq:
  "citations_of used rel =
     map (\<lambda>i. toCitation (rel ! i)) (filter (\<lambda>i. i < length rel) (sort used))"
  by (simp add: citations_of_def List.map_filter_def nth_opt_def comp_def)

lemma set_add_set: "set (set_add x xs) = insert x (set xs)"
  by (auto simp: set_add_def)

lemma set_add_distinct: "distinct xs \<Longrightarrow> distinct (set_add x xs)"
  by (simp add: set_add_def)

lemma note_citation_distinct: "distinct used \<Longrightarrow> distinct (note_citation n used num)"
  by (simp add: note_citation_def Let_def set_add_distinct)

lemma note_citation_set:
  "set (note_citation n used num) = set used \<union> {i. i < n \<and> Suc i = parseInt num}"
  by (auto simp: note_citation_def Let_def set_add_set)

lemma used_fold_inv:
  "distinct acc \<Longrightarrow>
   distinct (foldl (note_citation n) acc ms)
   \<and> set (foldl (note_citation n) acc ms)
     = set acc \<union> {i. i < n \<and> Suc i \<in> parseInt ` set ms}"
proof (induction ms arbitrary: acc)
  case Nil
  then show ?case by simp
next
  case (Cons m ms)
  have "{i. i < n \<and> Suc i \<in> parseInt ` set (m # ms)}
        = {i. i < n \<and> Suc i = parseInt m} \<union> {i. i < n \<and> Suc i \<in> parseInt ` set ms}"
    by auto
  with Cons.IH [OF note_citation_distinct [OF Cons.prems], of n m]
  show ?case
    by (simp add: note_citation_set Un_assoc)
qed

lemma used_distinct: "distinct (usedCitationIndices_of cleaned n)"
  using used_fold_inv [of "[]" n "regex_matches cleaned"]
  by (simp add: usedCitationIndices_of_def)

lemma used_set:
  "set (usedCitationIndices_of cleaned n) = {i. i < n \<and> Suc i \<in> parseInt ` set (regex_matches cleaned)}"
  using used_fold_inv [of "[]" n "regex_matches cleaned"]
  by (simp add: usedCitationIndices_of_def)

lemma citations_of_used:
  "citations_of (usedCitationIndices_of cleaned (length rel)) rel =
     map (\<lambda>i. toCitation (rel ! i))
       (sorted_list_of_set {i. i < length rel \<and> Suc i \<in> parseInt ` set (regex_matches cleaned)})"
proof -
  let ?u = "usedCitationIndices_of cleaned (length rel)"
  have "\<forall>i \<in> set (sort ?u). i < length rel"
    by (simp add: used_set)
  then have "filter (\<lambda>i. i < length rel) (sort ?u) = sort ?u"
    by (simp only: filter_True)
  moreover have "sort ?u = sorted_list_of_set (set ?u)"
    using used_distinct [of cleaned "length rel"]
    by (simp add: sorted_list_of_set_sort_remdups distinct_remdups_id)
  ultimately show ?thesis
    by (simp add: citations_of_eq used_set)
qed


section \<open>Properties of the answer\<close>

text \<open>
  C6. With an empty list of search results the function returns the fixed
  insufficient-information message and no citations, whatever the query and the mode, and
  makes no generation call.
\<close>

theorem empty_results_fixed_answer:
  "generateAnswerWithCitations g query [] md =
     ([], Inr \<lparr> answer = msg_no_results, citations = [], mode = md,
                canCiteForCustomer = False \<rparr>)"
  by (simp add: generateAnswerWithCitations_def)

text \<open>
  C5. In customer mode, a non-empty list of search results none of which is customer-safe
  gives the fixed internal-only message, no citations and \<open>canCiteForCustomer = false\<close>; the
  decision is taken before the relevance check, and no generation call is made.
\<close>

theorem policy_blocked_fixed_answer:
  assumes "searchResults \<noteq> []"
    and "\<forall>r \<in> set searchResults. \<not> is_customer_safe r"
  shows "generateAnswerWithCitations g query searchResults Customer =
     ([], Inr \<lparr> answer = msg_internal_only, citations = [], mode = Customer,
                canCiteForCustomer = False \<rparr>)"
proof -
  from assms(2) have "filter is_customer_safe searchResults = []"
    by (simp add: filter_empty_conv)
  with assms(1) show ?thesis
    by (simp add: generateAnswerWithCitations_def relevantResults_of_def)
qed

theorem policy_blocked_fixed_answer_witness:
  "internal_sources \<noteq> []
   \<and> \<not> list_ex is_customer_safe internal_sources
   \<and> generateAnswerWithCitations (scripted ''YES'' ''Deploy on Fridays [1].'')
        ''What is the deployment process?'' internal_sources Customer =
     ([], Inr \<lparr> answer = msg_internal_only, citations = [], mode = Customer,
                canCiteForCustomer = False \<rparr>)"
proof -
  have h1: "internal_sources \<noteq> []"
    by (simp add: internal_sources_def)
  have h2: "\<forall>r \<in> set internal_sources. \<not> is_customer_safe r"
    by (simp add: internal_sources_def createMockResult_def)
  from policy_blocked_fixed_answer [OF h1 h2] h1 h2 show ?thesis
    by (simp add: list_ex_iff)
qed

text \<open>
  C1. In customer mode every citation of a returned answer is customer-safe: the evidence
  is first restricted to the customer-safe search results, both generation calls are built
  from that restricted list, and every citation is made from one of its entries.
\<close>

theorem customer_citations_safe:
  assumes "generateAnswerWithCitations g q rs Customer = (calls, Inr a)"
  shows "(\<forall>c \<in> set (citations a).
            is_customer_safe_c c
            \<and> (\<exists>r \<in> set (filter is_customer_safe rs). c = toCitation r))
         \<and> (\<forall>call \<in> set calls.
              call = RelevancePrompt q (relevanceContext_of (filter is_customer_safe rs))
              \<or> call = AnswerPrompt Customer (context_of (filter is_customer_safe rs)) q
                         (length (filter is_customer_safe rs)))"
  using assms
proof (cases rule: generate_Inr_cases)
  case (answered verdict raw)
  let ?rel = "filter is_customer_safe rs"
  have rel: "relevantResults_of Customer rs = ?rel"
    by (simp add: relevantResults_of_def)
  have "\<forall>c \<in> set (citations a).
          is_customer_safe_c c \<and> (\<exists>r \<in> set ?rel. c = toCitation r)"
  proof
    fix c assume "c \<in> set (citations a)"
    with answered(7) rel obtain i where i: "i < length ?rel" and c: "c = toCitation (?rel ! i)"
      by (auto simp: citations_of_eq)
    from i have m: "?rel ! i \<in> set ?rel" by (rule nth_mem)
    then have "is_customer_safe (?rel ! i)" by simp
    with m c show "is_customer_safe_c c \<and> (\<exists>r \<in> set ?rel. c = toCitation r)"
      by (auto simp: toCitation_def)
  qed
  with answered(6) rel show ?thesis by simp
qed (simp_all add: relevantResults_of_def)

theorem customer_citations_safe_witness:
  "generateAnswerWithCitations (scripted ''YES'' ''Use tokens [2], see [3] and [1].'')
     ''How does authentication work?'' mixed_sources Customer =
     ([RelevancePrompt ''How does authentication work?''
         (relevanceContext_of (filter is_customer_safe mixed_sources)),
       AnswerPrompt Customer (context_of (filter is_customer_safe mixed_sources))
         ''How does authentication work?'' 2],
      Inr \<lparr> answer = ''Use tokens [2], see  and [1].'',
            citations =
              [toCitation (createMockResult 2 ''Public help article about authentication'' True),
               toCitation (createMockResult 4 ''Official API documentation'' True)],
            mode = Customer, canCiteForCustomer = True \<rparr>)
   \<and> list_all is_customer_safe_c
        [toCitation (createMockResult 2 ''Public help article about authentication'' True),
         toCitation (createMockResult 4 ''Official API documentation'' True)]"
proof -
  have run: "generateAnswerWithCitations (scripted ''YES'' ''Use tokens [2], see [3] and [1].'')
     ''How does authentication work?'' mixed_sources Customer =
     ([RelevancePrompt ''How does authentication work?''
         (relevanceContext_of (filter is_customer_safe mixed_sources)),
       AnswerPrompt Customer (context_of (filter is_customer_safe mixed_sources))
         ''How does authentication work?'' 2],
      Inr \<lparr> answer = ''Use tokens [2], see  and [1].'',
            citations =
              [toCitation (createMockResult 2 ''Public help article about authentication'' True),
               toCitation (createMockResult 4 ''Official API documentation'' True)],
            mode = Customer, canCiteForCustomer = True \<rparr>)"
    by code_simp
  from customer_citations_safe [OF run] run show ?thesis
    by (simp add: list_all_iff)
qed


text \<open>
  C2. The returned text can show a citation index outside \<open>[1, N]\<close>. With one source
  (\<open>N = 1\<close>) the token \<open>[0]\<close> of the raw output is not removed. With two sources (\<open>N = 2\<close>)
  the raw text \<open>[[9]7]\<close> loses \<open>[9]\<close> in the single pass of the replacement and what is left
  reads \<open>[7]\<close>. In both runs the citation list is empty: the loop that collects the used
  indexes accepts only \<open>1 .. N\<close>.
\<close>

theorem answer_keeps_out_of_range_citation:
  "snd (generateAnswerWithCitations (scripted ''YES'' ''See [0].'') ''What is the answer?''
          one_source Internal)
     = Inr \<lparr> answer = ''See [0].'', citations = [], mode = Internal,
             canCiteForCustomer = True \<rparr>
   \<and> map parseInt (regex_matches ''See [0].'') = [0]
   \<and> length (relevantResults_of Internal one_source) = 1
   \<and> snd (generateAnswerWithCitations (scripted ''YES'' ''Fine [[9]7].'') ''What is the answer?''
          two_sources Internal)
     = Inr \<lparr> answer = ''Fine [7].'', citations = [], mode = Internal,
             canCiteForCustomer = True \<rparr>
   \<and> map parseInt (regex_matches ''Fine [7].'') = [7]
   \<and> length (relevantResults_of Internal two_sources) = 2"
  by code_simp

text \<open>
  C7 (as amended). In internal mode \<open>canCiteForCustomer\<close> is true exactly when the answer
  comes from generation, that is when the list of search results is not empty and the
  relevance verdict is positive; both early returns give false.
\<close>

theorem internal_can_cite_iff_generated:
  assumes "generateAnswerWithCitations g q rs Internal = (calls, Inr a)"
  shows "canCiteForCustomer a
         = (rs \<noteq> [] \<and> (\<exists>verdict. g (RelevancePrompt q (relevanceContext_of rs)) = Inr verdict
                                  \<and> isRelevant_of verdict))"
  using assms
  by (cases rule: generate_Inr_cases) (auto simp: relevantResults_of_def)

theorem internal_can_cite_iff_generated_witness:
  "generateAnswerWithCitations (scripted ''YES'' ''Fix it as in [1].'') ''How do we fix the bug?''
     two_sources Internal =
     ([RelevancePrompt ''How do we fix the bug?'' (relevanceContext_of two_sources),
       AnswerPrompt Internal (context_of two_sources) ''How do we fix the bug?'' 2],
      Inr \<lparr> answer = ''Fix it as in [1].'',
            citations = [toCitation (createMockResult 1 ''Deployments happen during business hours'' True)],
            mode = Internal, canCiteForCustomer = True \<rparr>)
   \<and> two_sources \<noteq> []
   \<and> (\<exists>verdict. scripted ''YES'' ''Fix it as in [1].''
                   (RelevancePrompt ''How do we fix the bug?'' (relevanceContext_of two_sources))
                 = Inr verdict \<and> isRelevant_of verdict)"
proof -
  have run: "generateAnswerWithCitations (scripted ''YES'' ''Fix it as in [1].'') ''How do we fix the bug?''
     two_sources Internal =
     ([RelevancePrompt ''How do we fix the bug?'' (relevanceContext_of two_sources),
       AnswerPrompt Internal (context_of two_sources) ''How do we fix the bug?'' 2],
      Inr \<lparr> answer = ''Fix it as in [1].'',
            citations = [toCitation (createMockResult 1 ''Deployments happen during business hours'' True)],
            mode = Internal, canCiteForCustomer = True \<rparr>)"
    by code_simp
  from internal_can_cite_iff_generated [OF run] run show ?thesis
    by simp
qed

text \<open>
  C7 as stated fails on both early returns: an empty list of search results, and a negative
  relevance verdict.
\<close>

theorem internal_early_returns_cannot_cite:
  "map_sum id canCiteForCustomer
     (snd (generateAnswerWithCitations (scripted ''YES'' ''Fix it as in [1].'')
             ''What is the answer?'' [] Internal)) = Inr False
   \<and> map_sum id canCiteForCustomer
     (snd (generateAnswerWithCitations (scripted ''NO'' ''Fix it as in [1].'')
             ''What is the answer?'' two_sources Internal)) = Inr False"
  by code_simp

text \<open>
  C8 (as amended). The citations of a returned answer are ordered by ascending index in
  the evidence list, each index at most once.
\<close>

theorem citations_in_evidence_order:
  assumes "generateAnswerWithCitations g q rs md = (calls, Inr a)"
  shows "\<exists>idxs. sorted_wrt (<) idxs
           \<and> (\<forall>i \<in> set idxs. i < length (relevantResults_of md rs))
           \<and> citations a = map (\<lambda>i. toCitation (relevantResults_of md rs ! i)) idxs"
  using assms
proof (cases rule: generate_Inr_cases)
  case (answered verdict raw)
  let ?rel = "relevantResults_of md rs"
  let ?S = "{i. i < length ?rel
               \<and> Suc i \<in> parseInt ` set (regex_matches (cleanInvalidCitations raw (length ?rel)))}"
  have "finite ?S" by simp
  then have "sorted_wrt (<) (sorted_list_of_set ?S)"
    and "set (sorted_list_of_set ?S) = ?S"
    by (simp_all add: strict_sorted_iff del: sorted_wrt_iff_nth_less)
  moreover from answered(7)
  have "citations a = map (\<lambda>i. toCitation (?rel ! i)) (sorted_list_of_set ?S)"
    by (simp add: citations_of_used)
  ultimately show ?thesis
    by (intro exI [of _ "sorted_list_of_set ?S"]) simp
next
  case no_results
  then show ?thesis by (intro exI [of _ "[]"]) simp
next
  case blocked
  then show ?thesis by (intro exI [of _ "[]"]) simp
next
  case (irrelevant verdict)
  then show ?thesis by (intro exI [of _ "[]"]) simp
qed

theorem citations_in_evidence_order_witness:
  "generateAnswerWithCitations
     (scripted ''YES'' ''Rollbacks are automated [2]. Deployments happen during business hours [1].'')
     ''How do we deploy?'' two_sources Internal =
     ([RelevancePrompt ''How do we deploy?'' (relevanceContext_of two_sources),
       AnswerPrompt Internal (context_of two_sources) ''How do we deploy?'' 2],
      Inr \<lparr> answer = ''Rollbacks are automated [2]. Deployments happen during business hours [1].'',
            citations = map (\<lambda>i. toCitation (two_sources ! i)) [0, 1],
            mode = Internal, canCiteForCustomer = True \<rparr>)
   \<and> (\<exists>idxs. sorted_wrt (<) idxs
           \<and> map (\<lambda>i. toCitation (two_sources ! i)) [0, 1]
               = map (\<lambda>i. toCitation (relevantResults_of Internal two_sources ! i)) idxs)"
proof -
  have run: "generateAnswerWithCitations
     (scripted ''YES'' ''Rollbacks are automated [2]. Deployments happen during business hours [1].'')
     ''How do we deploy?'' two_sources Internal =
     ([RelevancePrompt ''How do we deploy?'' (relevanceContext_of two_sources),
       AnswerPrompt Internal (context_of two_sources) ''How do we deploy?'' 2],
      Inr \<lparr> answer = ''Rollbacks are automated [2]. Deployments happen during business hours [1].'',
            citations = map (\<lambda>i. toCitation (two_sources ! i)) [0, 1],
            mode = Internal, canCiteForCustomer = True \<rparr>)"
    by code_simp
  from citations_in_evidence_order [OF run] run show ?thesis
    by auto
qed

text \<open>
  C8 as stated fails: the text cites \<open>[2]\<close> first and \<open>[1]\<close> second (the set of used indices
  is filled in that order), and the citation list has source 1 before source 2.
\<close>

theorem citations_not_in_first_use_order:
  "map_sum id citations
     (snd (generateAnswerWithCitations
        (scripted ''YES'' ''Rollbacks are automated [2]. Deployments happen during business hours [1].'')
        ''How do we deploy?'' two_sources Internal))
     = Inr [toCitation (two_sources ! 0), toCitation (two_sources ! 1)]
   \<and> usedCitationIndices_of
        ''Rollbacks are automated [2]. Deployments happen during business hours [1].'' 2 = [1, 0]
   \<and> [toCitation (two_sources ! 0), toCitation (two_sources ! 1)]
       \<noteq> [toCitation (two_sources ! 1), toCitation (two_sources ! 0)]"
  by code_simp


section \<open>Rounding\<close>

lemma quotient_pos:
  assumes "0 < x"
  shows "0 < fst (quotient_of x)" and "0 < snd (quotient_of x)"
    and "x = of_int (fst (quotient_of x)) / of_int (snd (quotient_of x))"
proof -
  obtain p q where pq: "quotient_of x = (p, q)" by (cases "quotient_of x")
  then have q: "0 < q" by (rule quotient_of_denom_pos)
  from pq have x: "x = of_int p / of_int q" by (rule quotient_of_div)
  with assms q have "0 < p" by (simp add: zero_less_divide_iff)
  with q x pq show "0 < fst (quotient_of x)" and "0 < snd (quotient_of x)"
    and "x = of_int (fst (quotient_of x)) / of_int (snd (quotient_of x))"
    by simp_all
qed

lemma bitlen_bounds_rat:
  assumes "0 < (m::int)"
  shows "(2::rat) powi (bitlen m - 1) \<le> of_int m" and "(of_int m :: rat) < 2 powi bitlen m"
proof -
  from assms have b: "1 \<le> bitlen m" by (auto simp: bitlen_alt_def)
  from bitlen_bounds [OF assms]
  have lo: "2 ^ nat (bitlen m - 1) \<le> m" and hi: "m < 2 ^ nat (bitlen m)" by simp_all
  from lo have "(of_int (2 ^ nat (bitlen m - 1)) :: rat) \<le> of_int m"
    by (simp only: of_int_le_iff)
  with b show "(2::rat) powi (bitlen m - 1) \<le> of_int m"
    by (simp add: power_int_nonneg_exp)
  from hi have "(of_int m :: rat) < of_int (2 ^ nat (bitlen m))"
    by (simp only: of_int_less_iff)
  with b show "(of_int m :: rat) < 2 powi bitlen m"
    by (simp add: power_int_nonneg_exp)
qed

lemma pow2_times: "(2::rat) ^ n * 2 powi m = 2 powi (int n + m)"
  using power_int_add [of "2::rat" "int n" m] by simp

lemma pow2_div: "(2::rat) powi m / 2 powi n = 2 powi (m - n)"
  using power_int_diff [of "2::rat" m n] by simp

lemma expo_bracket:
  assumes "0 < x"
  shows "2 powi (expo x) \<le> x" and "x < 2 powi (expo x + 1)"
proof -
  let ?p = "fst (quotient_of x)" and ?q = "snd (quotient_of x)"
  let ?d = "bitlen ?p - bitlen ?q"
  from quotient_pos [OF assms] have p: "0 < ?p" and q: "0 < ?q"
    and x: "x = of_int ?p / of_int ?q" by blast+
  have qr: "(0::rat) < of_int ?q" using q by simp
  have pr: "(0::rat) < of_int ?p" using p by simp
  have two: "(0::rat) < 2 powi n" for n by simp
  have "of_int ?p / of_int ?q < (2::rat) powi bitlen ?p / 2 powi (bitlen ?q - 1)"
    using bitlen_bounds_rat [OF p] bitlen_bounds_rat [OF q] pr qr two
    by (intro frac_less) simp_all
  also have "\<dots> = 2 powi (bitlen ?p - (bitlen ?q - 1))"
    by (rule pow2_div)
  also have "bitlen ?p - (bitlen ?q - 1) = ?d + 1"
    by simp
  finally have hi: "x < 2 powi (?d + 1)" using x by simp
  have "(2::rat) powi (bitlen ?p - 1) / 2 powi bitlen ?q < of_int ?p / of_int ?q"
    using bitlen_bounds_rat [OF p] bitlen_bounds_rat [OF q] pr qr two
    by (intro frac_less2) simp_all
  moreover have "(2::rat) powi (bitlen ?p - 1) / 2 powi bitlen ?q = 2 powi (?d - 1)"
  proof -
    have "bitlen ?p - 1 - bitlen ?q = ?d - 1" by simp
    then show ?thesis by (simp only: pow2_div)
  qed
  ultimately have lo: "2 powi (?d - 1) < x" using x by simp
  show "2 powi (expo x) \<le> x"
    using lo by (simp add: expo_def Let_def)
  show "x < 2 powi (expo x + 1)"
    using hi by (auto simp: expo_def Let_def not_le)
qed

lemma rne_bounds: "\<lfloor>q\<rfloor> \<le> rne q" "rne q \<le> \<lfloor>q\<rfloor> + 1"
  by (simp_all add: rne_def Let_def)

lemma rne_of_int: "rne (of_int n) = n"
  by (simp add: rne_def Let_def)

lemma round64_pos_form:
  assumes "0 < x"
  shows "round64 x = of_int (rne (x / 2 powi (expo x - 52))) * 2 powi (expo x - 52)"
  using assms by (simp add: round64_def Let_def)

lemma scaled_bracket:
  assumes "0 < x"
  shows "2 ^ 52 \<le> x / 2 powi (expo x - 52)" and "x / 2 powi (expo x - 52) < 2 ^ 53"
proof -
  have u: "(0::rat) < 2 powi (expo x - 52)" by simp
  have "int 52 + (expo x - 52) = expo x" by simp
  then have a: "(2::rat) ^ 52 * 2 powi (expo x - 52) = 2 powi (expo x)"
    by (simp only: pow2_times)
  have "int 53 + (expo x - 52) = expo x + 1" by simp
  then have b: "(2::rat) ^ 53 * 2 powi (expo x - 52) = 2 powi (expo x + 1)"
    by (simp only: pow2_times)
  from expo_bracket(1) [OF assms] a have "2 ^ 52 * 2 powi (expo x - 52) \<le> x"
    by (simp only:)
  with u show "2 ^ 52 \<le> x / 2 powi (expo x - 52)"
    by (simp only: pos_le_divide_eq)
  from expo_bracket(2) [OF assms] b have "x < 2 ^ 53 * 2 powi (expo x - 52)"
    by (simp only:)
  with u show "x / 2 powi (expo x - 52) < 2 ^ 53"
    by (simp only: pos_divide_less_eq)
qed

lemma round64_pos:
  assumes "0 < x"
  shows "0 < round64 x"
proof -
  let ?q = "x / 2 powi (expo x - 52)"
  from scaled_bracket(1) [OF assms] have "(2::rat) ^ 52 \<le> ?q" .
  then have "(of_int (2 ^ 52) :: rat) \<le> ?q" by simp
  then have "2 ^ 52 \<le> \<lfloor>?q\<rfloor>" by (simp only: le_floor_iff)
  moreover have "(0::int) < 2 ^ 52" by simp
  ultimately have "0 < rne ?q" using rne_bounds(1) [of ?q] by linarith
  then show ?thesis
    by (simp add: round64_pos_form [OF assms])
qed

lemma round64_le_next_power:
  assumes "0 < x"
  shows "round64 x \<le> 2 powi (expo x + 1)"
proof -
  let ?u = "(2::rat) powi (expo x - 52)"
  let ?q = "x / ?u"
  from scaled_bracket(2) [OF assms] have "?q < of_int (2 ^ 53)" by simp
  then have "\<lfloor>?q\<rfloor> < 2 ^ 53" by (simp only: floor_less_iff)
  with rne_bounds(2) [of ?q] have "rne ?q \<le> 2 ^ 53" by linarith
  then have "(of_int (rne ?q) :: rat) \<le> of_int (2 ^ 53)" by (simp only: of_int_le_iff)
  then have le: "of_int (rne ?q) * ?u \<le> of_int (2 ^ 53) * ?u"
    by (intro mult_right_mono) simp_all
  have "(of_int (2 ^ 53) :: rat) * ?u = 2 ^ 53 * ?u" by simp
  also have "\<dots> = 2 powi (int 53 + (expo x - 52))" by (rule pow2_times)
  also have "int 53 + (expo x - 52) = expo x + 1" by simp
  finally have "(of_int (2 ^ 53) :: rat) * ?u = 2 powi (expo x + 1)" .
  with le have "of_int (rne ?q) * ?u \<le> 2 powi (expo x + 1)" by (simp only:)
  then show ?thesis
    by (simp only: round64_pos_form [OF assms])
qed

lemma round64_one: "round64 1 = 1"
  by code_simp

lemma round64_le_one:
  assumes "0 < x" and "x \<le> 1"
  shows "round64 x \<le> 1"
proof (cases "x = 1")
  case True
  then show ?thesis by (simp add: round64_one)
next
  case False
  with assms(2) have lt: "x < 1" by simp
  have "expo x < 0"
  proof (rule ccontr)
    assume "\<not> expo x < 0"
    then have "(1::rat) \<le> 2 powi (expo x)" by (intro one_le_power_int) simp_all
    with expo_bracket(1) [OF assms(1)] lt show False by simp
  qed
  then have "(2::rat) powi (expo x + 1) \<le> 2 powi 0"
    by (intro power_int_increasing) simp_all
  then have "(2::rat) powi (expo x + 1) \<le> 1" by simp
  with round64_le_next_power [OF assms(1)] show ?thesis by simp
qed


lemma number_0_2_value [code]: "number_0_2 = 3602879701896397 / 18014398509481984"
  unfolding number_0_2_def by code_simp

lemma number_0_3_value [code]: "number_0_3 = 5404319552844595 / 18014398509481984"
  unfolding number_0_3_def by code_simp

lemma number_0_9_value [code]: "number_0_9 = 8106479329266893 / 9007199254740992"
  unfolding number_0_9_def by code_simp

lemma rounding_breaks_tie:
  "round64 (1 / 6) < fadd (round64 (1 / 10)) (round64 (1 / 15))"
  by code_simp

lemma round64_nonneg: "0 \<le> x \<Longrightarrow> 0 \<le> round64 x"
  using round64_pos [of x] by (cases "x = 0") (auto simp: round64_def)

lemma fadd_pos: "0 \<le> a \<Longrightarrow> 0 < b \<Longrightarrow> 0 < fadd a b"
  by (simp add: fadd_def round64_pos)

lemma fadd_pos_pos: "0 < a \<Longrightarrow> 0 < b \<Longrightarrow> 0 < fadd a b"
  by (simp add: fadd_def round64_pos)

lemma fdiv_pos: "0 < a \<Longrightarrow> 0 < b \<Longrightarrow> 0 < fdiv a b"
  by (simp add: fdiv_def round64_pos)

lemma fdiv_self: "a \<noteq> 0 \<Longrightarrow> fdiv a a = 1"
  by (simp add: fdiv_def round64_one)

lemma fdiv_le_one: "0 < a \<Longrightarrow> a \<le> b \<Longrightarrow> fdiv a b \<le> 1"
  by (simp add: fdiv_def round64_le_one)

lemma round64_of_nat:
  assumes "n < 2 ^ 53"
  shows "round64 (of_nat n) = of_nat n"
proof (cases "n = 0")
  case True
  then show ?thesis by (simp add: round64_def)
next
  case False
  let ?x = "of_nat n :: rat"
  let ?e = "expo ?x"
  from False have pos: "0 < ?x" by simp
  from False have one: "1 \<le> ?x" by simp
  have lo: "0 \<le> ?e"
  proof (rule ccontr)
    assume "\<not> 0 \<le> ?e"
    then have "(2::rat) powi (?e + 1) \<le> 2 powi 0"
      by (intro power_int_increasing) simp_all
    with expo_bracket(2) [OF pos] one show False by simp
  qed
  have hi: "?e \<le> 52"
  proof (rule ccontr)
    assume "\<not> ?e \<le> 52"
    then have "(2::rat) powi 53 \<le> 2 powi ?e"
      by (intro power_int_increasing) simp_all
    with expo_bracket(1) [OF pos] have "(2::rat) ^ 53 \<le> of_nat n" by simp
    then have "(of_nat (2 ^ 53) :: rat) \<le> of_nat n" by simp
    then have "(2::nat) ^ 53 \<le> n" by (simp only: of_nat_le_iff)
    with assms show False by simp
  qed
  define m where "m = nat (52 - ?e)"
  from lo hi have e: "?e - 52 = - int m" by (simp add: m_def)
  have u: "(2::rat) powi (?e - 52) = inverse (2 ^ m)"
    by (simp only: e power_int_minus power_int_of_nat)
  have q: "?x / 2 powi (?e - 52) = of_int (int n * 2 ^ m)"
    by (simp add: u divide_inverse)
  have "round64 ?x = of_int (rne (?x / 2 powi (?e - 52))) * 2 powi (?e - 52)"
    using pos by (rule round64_pos_form)
  also have "\<dots> = of_int (int n * 2 ^ m) * 2 powi (?e - 52)"
    by (simp only: q rne_of_int)
  also have "\<dots> = of_int (int n * 2 ^ m) * inverse (2 ^ m)"
    by (simp only: u)
  also have "\<dots> = ?x" by simp
  finally show ?thesis .
qed

lemma fadd_of_nat:
  assumes "a + b < 2 ^ 53"
  shows "fadd (of_nat a) (of_nat b) = of_nat (a + b)"
  using round64_of_nat [OF assms] by (simp add: fadd_def)

section \<open>The score map and its sorting\<close>

lemma rrfScore_pos: "0 < rrfScore_at k i"
proof -
  have "0 \<le> fadd (of_nat k) (of_nat i)"
    by (simp add: fadd_def round64_nonneg)
  then have "0 < fadd (fadd (of_nat k) (of_nat i)) 1"
    by (intro fadd_pos) simp_all
  then show ?thesis
    by (simp add: rrfScore_at_def fdiv_pos)
qed

lemma set_update_subset: "set (AList.update key v al) \<subseteq> insert (key, v) (set al)"
  by (induction al) auto

lemma update_fresh: "key \<notin> fst ` set al \<Longrightarrow> AList.update key v al = al @ [(key, v)]"
  by (induction al) auto

lemma foldl_invariant:
  assumes "P acc" and "\<And>m x. P m \<Longrightarrow> x \<in> set xs \<Longrightarrow> P (f m x)"
  shows "P (foldl f acc xs)"
  using assms by (induction xs arbitrary: acc) auto

lemma add_vector_ok:
  assumes "\<forall>p \<in> set m. entry_ok p"
  shows "\<forall>p \<in> set (add_vector k m ir). entry_ok p"
proof
  fix p assume "p \<in> set (add_vector k m ir)"
  then have "p = (id_sr (snd ir),
                  \<lparr> result = (snd ir)\<lparr>similarity := rrfScore_at k (fst ir)\<rparr>,
                    score = rrfScore_at k (fst ir) \<rparr>) \<or> p \<in> set m"
    using set_update_subset by (fastforce simp: add_vector_def Let_def)
  with assms show "entry_ok p"
    by (auto simp: entry_ok_def rrfScore_pos)
qed

lemma add_keyword_ok:
  assumes "\<forall>p \<in> set m. entry_ok p"
  shows "\<forall>p \<in> set (add_keyword k m ir). entry_ok p"
proof (cases "map_of m (id_sr (snd ir))")
  case None
  show ?thesis
  proof
    fix p assume "p \<in> set (add_keyword k m ir)"
    with None have "p = (id_sr (snd ir),
                  \<lparr> result = (snd ir)\<lparr>similarity := rrfScore_at k (fst ir)\<rparr>,
                    score = rrfScore_at k (fst ir) \<rparr>) \<or> p \<in> set m"
      using set_update_subset by (fastforce simp: add_keyword_def Let_def)
    with assms show "entry_ok p"
      by (auto simp: entry_ok_def rrfScore_pos)
  qed
next
  case (Some ex)
  then have "(id_sr (snd ir), ex) \<in> set m" by (rule map_of_SomeD)
  with assms have ex: "entry_ok (id_sr (snd ir), ex)" by blast
  show ?thesis
  proof
    fix p assume "p \<in> set (add_keyword k m ir)"
    with Some have "p = (id_sr (snd ir),
                  \<lparr> result = (result ex)\<lparr>similarity := fadd (score ex) (rrfScore_at k (fst ir))\<rparr>,
                    score = fadd (score ex) (rrfScore_at k (fst ir)) \<rparr>) \<or> p \<in> set m"
      using set_update_subset by (fastforce simp: add_keyword_def Let_def)
    with assms ex show "entry_ok p"
      using rrfScore_pos [of k "fst ir"] by (auto simp: entry_ok_def fadd_pos_pos)
  qed
qed

lemma scoresMap_ok: "\<forall>p \<in> set (scoresMap_of vs ks k). entry_ok p"
proof -
  have "\<forall>p \<in> set (foldl (add_vector k) [] (List.enumerate 0 vs)). entry_ok p"
    by (rule foldl_invariant) (simp_all add: add_vector_ok)
  then show ?thesis
    unfolding scoresMap_of_def
    by (rule foldl_invariant) (simp add: add_keyword_ok)
qed

lemma foldl_snoc_nonempty:
  assumes "\<And>m x. f m x \<noteq> []" and "xs \<noteq> []"
  shows "foldl f acc xs \<noteq> []"
proof -
  from assms(2) obtain ys y where "xs = ys @ [y]"
    by (cases xs rule: rev_cases) auto
  with assms(1) show ?thesis by simp
qed

lemma add_vector_nonempty: "add_vector k m ir \<noteq> []"
  by (simp add: add_vector_def Let_def)

lemma add_keyword_nonempty: "add_keyword k m ir \<noteq> []"
  by (simp add: add_keyword_def Let_def split: option.splits)

lemma scoresMap_nonempty:
  assumes "vs \<noteq> [] \<or> ks \<noteq> []"
  shows "scoresMap_of vs ks k \<noteq> []"
proof (cases "ks = []")
  case True
  with assms have "List.enumerate 0 vs \<noteq> []" by (simp add: enumerate_eq_zip)
  then have "foldl (add_vector k) [] (List.enumerate 0 vs) \<noteq> []"
    by (intro foldl_snoc_nonempty add_vector_nonempty)
  with True show ?thesis by (simp add: scoresMap_of_def)
next
  case False
  then have "List.enumerate 0 ks \<noteq> []" by (simp add: enumerate_eq_zip)
  then show ?thesis
    unfolding scoresMap_of_def
    by (intro foldl_snoc_nonempty add_keyword_nonempty)
qed

lemma scoresMap_empty: "scoresMap_of [] [] k = []"
  by (simp add: scoresMap_of_def)

lemma sorted_of_set: "set (sorted_of vs ks k) = snd ` set (scoresMap_of vs ks k)"
  by (simp add: sorted_of_def sort_by_score_def)

lemma sorted_of_ok:
  assumes "e \<in> set (sorted_of vs ks k)"
  shows "similarity (result e) = score e" and "0 < score e"
proof -
  from assms obtain key where "(key, e) \<in> set (scoresMap_of vs ks k)"
    by (auto simp: sorted_of_set)
  with scoresMap_ok [of vs ks k] have "entry_ok (key, e)" by blast
  then show "similarity (result e) = score e" and "0 < score e"
    by (simp_all add: entry_ok_def)
qed

lemma sorted_of_descending:
  "sorted_wrt (\<lambda>a b. score b \<le> score a) (sorted_of vs ks k)"
proof -
  have "sorted (map (\<lambda>e. - score e) (sorted_of vs ks k))"
    by (simp add: sorted_of_def sort_by_score_def)
  then show ?thesis
    by (simp add: sorted_map)
qed

lemma head_is_max:
  assumes "e \<in> set (sorted_of vs ks k)"
  shows "score e \<le> score (hd (sorted_of vs ks k))"
proof (cases "sorted_of vs ks k")
  case Nil
  with assms show ?thesis by simp
next
  case (Cons h t)
  with sorted_of_descending [of vs ks k] have "\<forall>x \<in> set t. score x \<le> score h"
    by simp
  with assms Cons show ?thesis by auto
qed

lemma maxScore_nonzero: "maxScore_of es \<noteq> 0"
  by (simp add: maxScore_of_def split: list.splits)

lemma maxScore_is_head:
  assumes "sorted_of vs ks k \<noteq> []"
  shows "maxScore_of (sorted_of vs ks k) = score (hd (sorted_of vs ks k))"
proof -
  from assms have "hd (sorted_of vs ks k) \<in> set (sorted_of vs ks k)" by simp
  then have "0 < score (hd (sorted_of vs ks k))" by (rule sorted_of_ok)
  with assms show ?thesis
    by (cases "sorted_of vs ks k") (simp_all add: maxScore_of_def)
qed

lemma rrf_as_map:
  "reciprocalRankFusion vs ks k
   = map (\<lambda>e. (result e)\<lparr>similarity := fdiv (score e) (maxScore_of (sorted_of vs ks k))\<rparr>)
       (sorted_of vs ks k)"
  by (simp add: reciprocalRankFusion_def Let_def sorted_of_ok(1) cong: map_cong)


lemma rrf_nonempty_props:
  assumes "vs \<noteq> [] \<or> ks \<noteq> []"
  shows "reciprocalRankFusion vs ks k \<noteq> []"
    and "similarity (hd (reciprocalRankFusion vs ks k)) = 1"
    and "\<forall>r \<in> set (reciprocalRankFusion vs ks k). 0 < similarity r \<and> similarity r \<le> 1"
proof -
  let ?s = "sorted_of vs ks k"
  have "length ?s = length (scoresMap_of vs ks k)"
    by (simp add: sorted_of_def sort_by_score_def)
  with scoresMap_nonempty [OF assms, of k] have ne: "?s \<noteq> []"
    by (metis length_0_conv)
  then have mx: "maxScore_of ?s = score (hd ?s)" by (rule maxScore_is_head)
  from ne have "hd ?s \<in> set ?s" by simp
  then have pos: "0 < score (hd ?s)" by (rule sorted_of_ok)
  from ne show "reciprocalRankFusion vs ks k \<noteq> []"
    by (simp add: rrf_as_map)
  from ne pos show "similarity (hd (reciprocalRankFusion vs ks k)) = 1"
    by (simp add: rrf_as_map hd_map mx fdiv_self)
  show "\<forall>r \<in> set (reciprocalRankFusion vs ks k). 0 < similarity r \<and> similarity r \<le> 1"
  proof
    fix r assume "r \<in> set (reciprocalRankFusion vs ks k)"
    then obtain e where e: "e \<in> set ?s" and r: "similarity r = fdiv (score e) (score (hd ?s))"
      by (auto simp: rrf_as_map mx)
    from e have "0 < score e" and "score e \<le> score (hd ?s)"
      by (rule sorted_of_ok, rule head_is_max)
    with pos r show "0 < similarity r \<and> similarity r \<le> 1"
      by (simp add: fdiv_pos fdiv_le_one)
  qed
qed

lemma map_snd_enumerate_comp: "map (\<lambda>x. f (snd x)) (List.enumerate n xs) = map f xs"
  by (induction xs arbitrary: n) simp_all

lemma add_vector_fresh:
  "id_sr (snd ir) \<notin> fst ` set m \<Longrightarrow> add_vector k m ir = m @ [vector_entry k ir]"
  by (simp add: add_vector_def vector_entry_def Let_def update_fresh)

lemma vector_loop_closed:
  assumes "distinct (map id_sr vs)"
  shows "foldl (add_vector k) [] (List.enumerate 0 vs) = map (vector_entry k) (List.enumerate 0 vs)"
  using assms
proof (induction vs rule: rev_induct)
  case Nil
  show ?case by simp
next
  case (snoc v vs)
  then have d: "distinct (map id_sr vs)" and fresh: "id_sr v \<notin> id_sr ` set vs"
    by simp_all
  have keys: "fst ` set (map (vector_entry k) (List.enumerate 0 vs)) = id_sr ` set vs"
  proof -
    have "map fst (map (vector_entry k) (List.enumerate 0 vs)) = map id_sr vs"
      by (simp add: vector_entry_def comp_def map_snd_enumerate_comp)
    then have "set (map fst (map (vector_entry k) (List.enumerate 0 vs))) = set (map id_sr vs)"
      by simp
    then show ?thesis by (simp only: set_map)
  qed
  have "foldl (add_vector k) [] (List.enumerate 0 (vs @ [v]))
        = add_vector k (foldl (add_vector k) [] (List.enumerate 0 vs)) (length vs, v)"
    by (simp add: enumerate_append_eq)
  also have "\<dots> = add_vector k (map (vector_entry k) (List.enumerate 0 vs)) (length vs, v)"
    by (simp add: snoc.IH [OF d])
  also have "\<dots> = map (vector_entry k) (List.enumerate 0 vs) @ [vector_entry k (length vs, v)]"
    using fresh keys by (intro add_vector_fresh) simp
  also have "\<dots> = map (vector_entry k) (List.enumerate 0 (vs @ [v]))"
    by (simp add: enumerate_append_eq)
  finally show ?case .
qed

lemma vector_loop_keys:
  "distinct (map id_sr vs) \<Longrightarrow>
   map fst (foldl (add_vector k) [] (List.enumerate 0 vs)) = map id_sr vs"
proof -
  assume "distinct (map id_sr vs)"
  then show ?thesis
    by (simp add: vector_loop_closed vector_entry_def comp_def map_snd_enumerate_comp)
qed

lemma vector_loop_lookup:
  assumes "distinct (map id_sr vs)" and "i < length vs"
  shows "map_of (foldl (add_vector k) [] (List.enumerate 0 vs)) (id_sr (vs ! i))
         = Some \<lparr> result = (vs ! i)\<lparr>similarity := rrfScore_at k i\<rparr>, score = rrfScore_at k i \<rparr>"
proof -
  let ?m = "foldl (add_vector k) [] (List.enumerate 0 vs)"
  from assms(1) have "distinct (map fst ?m)" by (simp add: vector_loop_keys)
  moreover have "vector_entry k (i, vs ! i) \<in> set ?m"
  proof -
    from assms(2) have "(i, vs ! i) \<in> set (List.enumerate 0 vs)"
      by (simp add: in_set_enumerate_eq)
    with assms(1) show ?thesis by (simp add: vector_loop_closed)
  qed
  ultimately show ?thesis
    by (simp add: vector_entry_def)
qed

lemma add_keyword_keys:
  "map fst (add_keyword k m ir)
   = (if id_sr (snd ir) \<in> set (map fst m) then map fst m else map fst m @ [id_sr (snd ir)])"
  by (simp add: add_keyword_def Let_def update_keys split: option.splits)

lemma keyword_loop_keys:
  "distinct (map id_sr ks) \<Longrightarrow>
   map fst (foldl (add_keyword k) m (List.enumerate n ks))
   = map fst m @ filter (\<lambda>x. x \<notin> set (map fst m)) (map id_sr ks)"
proof (induction ks arbitrary: m n)
  case Nil
  show ?case by simp
next
  case (Cons y ys)
  then have d: "distinct (map id_sr ys)" and fresh: "id_sr y \<notin> id_sr ` set ys"
    by simp_all
  let ?m' = "add_keyword k m (n, y)"
  have step: "map fst (foldl (add_keyword k) m (List.enumerate n (y # ys)))
        = map fst ?m' @ filter (\<lambda>x. x \<notin> set (map fst ?m')) (map id_sr ys)"
    using Cons.IH [OF d, of ?m' "Suc n"] by simp
  show ?case
  proof (cases "id_sr y \<in> set (map fst m)")
    case True
    then have "map fst ?m' = map fst m" by (simp add: add_keyword_keys)
    with step True show ?thesis by simp
  next
    case False
    then have k': "map fst ?m' = map fst m @ [id_sr y]" by (simp add: add_keyword_keys)
    have "filter (\<lambda>x. x \<notin> set (map fst ?m')) (map id_sr ys)
          = filter (\<lambda>x. x \<notin> set (map fst m)) (map id_sr ys)"
    proof (rule filter_cong [OF refl])
      fix x assume "x \<in> set (map id_sr ys)"
      with fresh have "x \<noteq> id_sr y" by (metis set_map)
      then show "(x \<notin> set (map fst ?m')) = (x \<notin> set (map fst m))"
        by (simp add: k')
    qed
    with step k' False show ?thesis by simp
  qed
qed

lemma add_keyword_lookup:
  "map_of (add_keyword k m ir)
   = (map_of m)(id_sr (snd ir) \<mapsto> merged_entry k (map_of m (id_sr (snd ir))) ir)"
  by (simp add: add_keyword_def merged_entry_def Let_def update_conv' split: option.splits)

lemma keyword_loop_other:
  "x \<notin> id_sr ` set ks \<Longrightarrow>
   map_of (foldl (add_keyword k) m (List.enumerate n ks)) x = map_of m x"
  by (induction ks arbitrary: m n) (simp_all add: add_keyword_lookup)

lemma keyword_loop_lookup:
  "distinct (map id_sr ks) \<Longrightarrow> j < length ks \<Longrightarrow>
   map_of (foldl (add_keyword k) m (List.enumerate n ks)) (id_sr (ks ! j))
   = Some (merged_entry k (map_of m (id_sr (ks ! j))) (n + j, ks ! j))"
proof (induction ks arbitrary: m n j)
  case Nil
  then show ?case by simp
next
  case (Cons y ys)
  then have d: "distinct (map id_sr ys)" and fresh: "id_sr y \<notin> id_sr ` set ys"
    by simp_all
  show ?case
  proof (cases j)
    case 0
    with fresh show ?thesis
      by (simp add: keyword_loop_other add_keyword_lookup)
  next
    case (Suc j')
    with Cons.prems have j': "j' < length ys" by simp
    then have "id_sr (ys ! j') \<in> id_sr ` set ys" by (intro imageI nth_mem)
    with fresh have ne: "id_sr (ys ! j') \<noteq> id_sr y" by metis
    from Cons.IH [OF d j', of "add_keyword k m (n, y)" "Suc n"] ne Suc
    show ?thesis by (simp add: add_keyword_lookup)
  qed
qed


lemma scoresMap_keys:
  assumes "distinct (map id_sr vs)" and "distinct (map id_sr ks)"
  shows "map fst (scoresMap_of vs ks k)
         = map id_sr vs @ filter (\<lambda>x. x \<notin> set (map id_sr vs)) (map id_sr ks)"
  using keyword_loop_keys [OF assms(2), of k "foldl (add_vector k) [] (List.enumerate 0 vs)" 0]
  by (simp add: scoresMap_of_def vector_loop_keys [OF assms(1)])

lemma entry_ids_are_keys:
  "map (\<lambda>e. id_sr (result e)) (map snd (scoresMap_of vs ks k)) = map fst (scoresMap_of vs ks k)"
proof -
  have "\<forall>p \<in> set (scoresMap_of vs ks k). id_sr (result (snd p)) = fst p"
    using scoresMap_ok [of vs ks k] by (simp add: entry_ok_def)
  then show ?thesis by (simp add: comp_def cong: map_cong)
qed

lemma scoresMap_distinct_keys:
  assumes "distinct (map id_sr vs)" and "distinct (map id_sr ks)"
  shows "distinct (map fst (scoresMap_of vs ks k))"
  using assms by (auto simp: scoresMap_keys distinct_map_filter)

lemma rrf_ids:
  "map id_sr (reciprocalRankFusion vs ks k) = map (\<lambda>e. id_sr (result e)) (sorted_of vs ks k)"
  by (simp add: rrf_as_map comp_def)

lemma rrf_length: "length (reciprocalRankFusion vs ks k) = length (scoresMap_of vs ks k)"
  by (simp add: rrf_as_map sorted_of_def sort_by_score_def)

lemma distinct_map_sort_key: "distinct (map g (sort_key f xs)) = distinct (map g xs)"
  by (simp add: distinct_map)

lemma rrf_distinct_ids:
  assumes "distinct (map id_sr vs)" and "distinct (map id_sr ks)"
  shows "distinct (map id_sr (reciprocalRankFusion vs ks k))"
proof -
  let ?g = "\<lambda>e. id_sr (result e)"
  let ?es = "map snd (scoresMap_of vs ks k)"
  from scoresMap_distinct_keys [OF assms, of k] have "distinct (map ?g ?es)"
    by (simp only: entry_ids_are_keys)
  then have "distinct (map ?g (sort_key (\<lambda>e. - score e) ?es))"
    by (simp only: distinct_map_sort_key)
  then show ?thesis
    by (simp only: rrf_ids sorted_of_def sort_by_score_def)
qed

lemma rrf_id_set:
  assumes "distinct (map id_sr vs)" and "distinct (map id_sr ks)"
  shows "set (map id_sr (reciprocalRankFusion vs ks k)) = set (map id_sr vs) \<union> set (map id_sr ks)"
proof -
  let ?g = "\<lambda>e. id_sr (result e)"
  have "set (map id_sr (reciprocalRankFusion vs ks k))
        = ?g ` set (map snd (scoresMap_of vs ks k))"
    by (simp add: rrf_ids sorted_of_def sort_by_score_def)
  also have "\<dots> = set (map ?g (map snd (scoresMap_of vs ks k)))"
    by (simp only: set_map)
  also have "\<dots> = set (map fst (scoresMap_of vs ks k))"
    by (simp only: entry_ids_are_keys)
  also have "\<dots> = set (map id_sr vs) \<union> set (map id_sr ks)"
    by (auto simp: scoresMap_keys [OF assms])
  finally show ?thesis .
qed

lemma rrf_length_disjoint:
  assumes "distinct (map id_sr vs)" and "distinct (map id_sr ks)"
    and "set (map id_sr vs) \<inter> set (map id_sr ks) = {}"
  shows "length (reciprocalRankFusion vs ks k) = length vs + length ks"
proof -
  from assms(3) have "filter (\<lambda>x. x \<notin> set (map id_sr vs)) (map id_sr ks) = map id_sr ks"
    by (intro filter_True) auto
  then have "length (map fst (scoresMap_of vs ks k)) = length vs + length ks"
    by (simp add: scoresMap_keys [OF assms(1,2)])
  then show ?thesis by (simp add: rrf_length)
qed

lemma raw_score_entries:
  assumes "distinct (map id_sr vs)" and "distinct (map id_sr ks)"
    and "e \<in> set (sorted_of vs ks k)"
  shows "raw_score vs ks k (id_sr (result e)) = Some (score e)"
proof -
  from assms(3) obtain key where m: "(key, e) \<in> set (scoresMap_of vs ks k)"
    by (auto simp: sorted_of_set)
  with scoresMap_ok [of vs ks k] have "id_sr (result e) = key"
    by (auto simp: entry_ok_def)
  moreover from m scoresMap_distinct_keys [OF assms(1,2), of k]
  have "map_of (scoresMap_of vs ks k) key = Some e" by simp
  ultimately show ?thesis by (simp add: raw_score_def)
qed

lemma raw_score_vector_only:
  assumes "distinct (map id_sr vs)" and "i < length vs"
    and "id_sr (vs ! i) \<notin> set (map id_sr ks)"
  shows "raw_score vs ks k (id_sr (vs ! i)) = Some (rrfScore_at k i)"
proof -
  from assms(3) have "id_sr (vs ! i) \<notin> id_sr ` set ks" by simp
  then have "map_of (scoresMap_of vs ks k) (id_sr (vs ! i))
        = map_of (foldl (add_vector k) [] (List.enumerate 0 vs)) (id_sr (vs ! i))"
    unfolding scoresMap_of_def by (rule keyword_loop_other)
  with vector_loop_lookup [OF assms(1,2), of k] show ?thesis
    by (simp add: raw_score_def)
qed

lemma raw_score_keyword_only:
  assumes "distinct (map id_sr vs)" and "distinct (map id_sr ks)" and "j < length ks"
    and "id_sr (ks ! j) \<notin> set (map id_sr vs)"
  shows "raw_score vs ks k (id_sr (ks ! j)) = Some (rrfScore_at k j)"
proof -
  let ?m = "foldl (add_vector k) [] (List.enumerate 0 vs)"
  from assms(4) have "id_sr (ks ! j) \<notin> set (map fst ?m)"
    by (simp only: vector_loop_keys [OF assms(1)] not_False_eq_True)
  then have "map_of ?m (id_sr (ks ! j)) = None"
    by (simp add: map_of_eq_None_iff)
  with keyword_loop_lookup [OF assms(2,3), of k ?m 0] show ?thesis
    by (simp add: raw_score_def scoresMap_of_def merged_entry_def)
qed

lemma raw_score_both:
  assumes "distinct (map id_sr vs)" and "distinct (map id_sr ks)"
    and "i < length vs" and "j < length ks" and "id_sr (vs ! i) = id_sr (ks ! j)"
  shows "raw_score vs ks k (id_sr (vs ! i)) = Some (fadd (rrfScore_at k i) (rrfScore_at k j))"
proof -
  let ?m = "foldl (add_vector k) [] (List.enumerate 0 vs)"
  from vector_loop_lookup [OF assms(1,3), of k] assms(5)
  have "map_of ?m (id_sr (ks ! j))
        = Some \<lparr> result = (vs ! i)\<lparr>similarity := rrfScore_at k i\<rparr>, score = rrfScore_at k i \<rparr>"
    by simp
  with keyword_loop_lookup [OF assms(2,4), of k ?m 0] assms(5) show ?thesis
    by (simp add: raw_score_def scoresMap_of_def merged_entry_def)
qed

lemma rrfScore_at_rounded:
  assumes "k + i + 1 < 2 ^ 53"
  shows "rrfScore_at k i = round64 (1 / of_nat (k + i + 1))"
proof -
  from assms have a: "fadd (of_nat k) (of_nat i) = of_nat (k + i)"
    by (intro fadd_of_nat) simp
  from assms have "fadd (of_nat (k + i)) (of_nat 1) = of_nat (k + i + 1)"
    by (intro fadd_of_nat)
  then have b: "fadd (of_nat (k + i)) 1 = of_nat (k + i + 1)"
    by simp
  show ?thesis
    by (simp only: rrfScore_at_def a b fdiv_def)
qed

lemma sorted_of_stable:
  "filter (\<lambda>e. score e = s) (sorted_of vs ks k)
   = filter (\<lambda>e. score e = s) (map snd (scoresMap_of vs ks k))"
proof -
  have "(\<lambda>e::entry. score e = s) = (\<lambda>e. - score e = - s)" by auto
  then show ?thesis
    by (simp only: sorted_of_def sort_by_score_def sort_key_stable)
qed


lemma rounded_scores_example:
  "raw_score tie_semantic tie_lexical 5 5 = Some (fadd (round64 (1 / 10)) (round64 (1 / 15)))"
  "raw_score tie_semantic tie_lexical 5 1 = Some (round64 (1 / 6))"
  "round64 (1 / 6) < fadd (round64 (1 / 10)) (round64 (1 / 15))"
proof -
  have dv: "distinct (map id_sr tie_semantic)" and dk: "distinct (map id_sr tie_lexical)"
    and i4: "id_sr (tie_semantic ! 4) = 5" and j9: "id_sr (tie_lexical ! 9) = 5"
    and i0: "id_sr (tie_semantic ! 0) = 1"
    and lv: "length tie_semantic = 5" and lk: "length tie_lexical = 10"
    and new: "1 \<notin> set (map id_sr tie_lexical)"
    by (simp_all add: tie_semantic_def tie_lexical_def createMockResult_def)
  have r4: "rrfScore_at 5 4 = round64 (1 / 10)" and r9: "rrfScore_at 5 9 = round64 (1 / 15)"
    and r0: "rrfScore_at 5 0 = round64 (1 / 6)"
    by (simp_all add: rrfScore_at_rounded)
  from raw_score_both [OF dv dk, of 4 9 5] i4 j9 lv lk r4 r9
  show "raw_score tie_semantic tie_lexical 5 5 = Some (fadd (round64 (1 / 10)) (round64 (1 / 15)))"
    by simp
  from raw_score_vector_only [OF dv, of 0 tie_lexical 5] i0 lv new r0
  show "raw_score tie_semantic tie_lexical 5 1 = Some (round64 (1 / 6))"
    by simp
  show "round64 (1 / 6) < fadd (round64 (1 / 10)) (round64 (1 / 15))"
    by (rule rounding_breaks_tie)
qed

section \<open>Properties of the fusion\<close>

text \<open>
  C3. Take two ranked lists, each without a repeated fragment id. If they share no id,
  the fused list has as many items as both lists together. Its ids are distinct and are
  those of the two lists; it lists the sorted entries in their order, each score divided
  by the maximum. Before that division, the score of a fragment of one list only, at rank
  \<open>i\<close>, is the number \<open>1 / (k + i + 1)\<close>, that is the quotient rounded to binary64 (for
  \<open>k + i + 1\<close> below \<open>2^53\<close>); a fragment at rank \<open>i\<close> of the first list and rank \<open>j\<close> of the
  second has one entry, with the sum of the two contributions. The entries are sorted by
  descending score; entries of equal score keep the order of the map, which is the first
  list followed by the new fragments of the second.
\<close>

theorem rrf_fusion:
  assumes dv: "distinct (map id_sr vs)" and dk: "distinct (map id_sr ks)"
  shows
    "(set (map id_sr vs) \<inter> set (map id_sr ks) = {} \<longrightarrow>
        length (reciprocalRankFusion vs ks k) = length vs + length ks)
     \<and> distinct (map id_sr (reciprocalRankFusion vs ks k))
     \<and> set (map id_sr (reciprocalRankFusion vs ks k)) = set (map id_sr vs) \<union> set (map id_sr ks)
     \<and> reciprocalRankFusion vs ks k
         = map (\<lambda>e. (result e)\<lparr>similarity := fdiv (score e) (maxScore_of (sorted_of vs ks k))\<rparr>)
             (sorted_of vs ks k)
     \<and> (\<forall>e \<in> set (sorted_of vs ks k). raw_score vs ks k (id_sr (result e)) = Some (score e))
     \<and> (\<forall>i < length vs. id_sr (vs ! i) \<notin> set (map id_sr ks) \<longrightarrow>
           raw_score vs ks k (id_sr (vs ! i)) = Some (rrfScore_at k i))
     \<and> (\<forall>j < length ks. id_sr (ks ! j) \<notin> set (map id_sr vs) \<longrightarrow>
           raw_score vs ks k (id_sr (ks ! j)) = Some (rrfScore_at k j))
     \<and> (\<forall>i < length vs. \<forall>j < length ks. id_sr (vs ! i) = id_sr (ks ! j) \<longrightarrow>
           raw_score vs ks k (id_sr (vs ! i))
             = Some (fadd (rrfScore_at k i) (rrfScore_at k j)))
     \<and> (\<forall>i. k + i + 1 < 2 ^ 53 \<longrightarrow> rrfScore_at k i = round64 (1 / of_nat (k + i + 1)))
     \<and> sorted_wrt (\<lambda>a b. score b \<le> score a) (sorted_of vs ks k)
     \<and> (\<forall>s. filter (\<lambda>e. score e = s) (sorted_of vs ks k)
              = filter (\<lambda>e. score e = s) (map snd (scoresMap_of vs ks k)))
     \<and> map (\<lambda>e. id_sr (result e)) (map snd (scoresMap_of vs ks k))
         = map id_sr vs @ filter (\<lambda>x. x \<notin> set (map id_sr vs)) (map id_sr ks)"
proof (intro conjI impI allI ballI)
  show "length (reciprocalRankFusion vs ks k) = length vs + length ks"
    if "set (map id_sr vs) \<inter> set (map id_sr ks) = {}"
    using dv dk that by (rule rrf_length_disjoint)
  show "distinct (map id_sr (reciprocalRankFusion vs ks k))"
    using dv dk by (rule rrf_distinct_ids)
  show "set (map id_sr (reciprocalRankFusion vs ks k)) = set (map id_sr vs) \<union> set (map id_sr ks)"
    using dv dk by (rule rrf_id_set)
  show "reciprocalRankFusion vs ks k
         = map (\<lambda>e. (result e)\<lparr>similarity := fdiv (score e) (maxScore_of (sorted_of vs ks k))\<rparr>)
             (sorted_of vs ks k)"
    by (rule rrf_as_map)
  show "raw_score vs ks k (id_sr (result e)) = Some (score e)" if "e \<in> set (sorted_of vs ks k)" for e
    using dv dk that by (rule raw_score_entries)
  show "raw_score vs ks k (id_sr (vs ! i)) = Some (rrfScore_at k i)"
    if "i < length vs" and "id_sr (vs ! i) \<notin> set (map id_sr ks)" for i
    using dv that by (rule raw_score_vector_only)
  show "raw_score vs ks k (id_sr (ks ! j)) = Some (rrfScore_at k j)"
    if "j < length ks" and "id_sr (ks ! j) \<notin> set (map id_sr vs)" for j
    using dv dk that by (rule raw_score_keyword_only)
  show "raw_score vs ks k (id_sr (vs ! i)) = Some (fadd (rrfScore_at k i) (rrfScore_at k j))"
    if "i < length vs" and "j < length ks" and "id_sr (vs ! i) = id_sr (ks ! j)" for i j
    using dv dk that by (rule raw_score_both)
  show "rrfScore_at k i = round64 (1 / of_nat (k + i + 1))" if "k + i + 1 < 2 ^ 53" for i
    using that by (rule rrfScore_at_rounded)
  show "sorted_wrt (\<lambda>a b. score b \<le> score a) (sorted_of vs ks k)"
    by (rule sorted_of_descending)
  show "filter (\<lambda>e. score e = s) (sorted_of vs ks k)
        = filter (\<lambda>e. score e = s) (map snd (scoresMap_of vs ks k))" for s
    by (rule sorted_of_stable)
  show "map (\<lambda>e. id_sr (result e)) (map snd (scoresMap_of vs ks k))
         = map id_sr vs @ filter (\<lambda>x. x \<notin> set (map id_sr vs)) (map id_sr ks)"
    by (simp only: entry_ids_are_keys scoresMap_keys [OF dv dk])
qed

theorem rrf_fusion_witness:
  "distinct (map id_sr semantic_example)
   \<and> distinct (map id_sr lexical_example)
   \<and> distinct (map id_sr lexical_disjoint)
   \<and> set (map id_sr semantic_example) \<inter> set (map id_sr lexical_disjoint) = {}
   \<and> length (reciprocalRankFusion semantic_example lexical_disjoint 60) = 3
   \<and> id_sr (semantic_example ! 1) = id_sr (lexical_example ! 0)
   \<and> raw_score semantic_example lexical_example 60 2
       = Some (fadd (rrfScore_at 60 1) (rrfScore_at 60 0))
   \<and> rrfScore_at 60 0 = round64 (1 / 61)
   \<and> distinct (map id_sr (reciprocalRankFusion semantic_example lexical_example 60))"
proof -
  have h1: "distinct (map id_sr semantic_example)"
    and h2: "distinct (map id_sr lexical_example)"
    and h3: "distinct (map id_sr lexical_disjoint)"
    and h4: "set (map id_sr semantic_example) \<inter> set (map id_sr lexical_disjoint) = {}"
    and h5: "id_sr (semantic_example ! 1) = id_sr (lexical_example ! 0)"
    and l: "length semantic_example = 2" "length lexical_example = 2" "length lexical_disjoint = 1"
    and i: "id_sr (semantic_example ! 1) = 2"
    by (simp_all add: semantic_example_def lexical_example_def lexical_disjoint_def
        createMockResult_def)
  from rrf_fusion [OF h1 h3, of 60]
  have "set (map id_sr semantic_example) \<inter> set (map id_sr lexical_disjoint) = {} \<longrightarrow>
        length (reciprocalRankFusion semantic_example lexical_disjoint 60)
          = length semantic_example + length lexical_disjoint"
    by (rule conjunct1)
  with h4 l have a: "length (reciprocalRankFusion semantic_example lexical_disjoint 60) = 3"
    by simp
  from rrf_fusion [OF h1 h2, of 60]
  have both: "\<forall>i < length semantic_example. \<forall>j < length lexical_example.
          id_sr (semantic_example ! i) = id_sr (lexical_example ! j) \<longrightarrow>
          raw_score semantic_example lexical_example 60 (id_sr (semantic_example ! i))
            = Some (fadd (rrfScore_at 60 i) (rrfScore_at 60 j))"
    and rounded: "\<forall>i. 60 + i + 1 < 2 ^ 53 \<longrightarrow> rrfScore_at 60 i = round64 (1 / of_nat (60 + i + 1))"
    and d: "distinct (map id_sr (reciprocalRankFusion semantic_example lexical_example 60))"
    by blast+
  from both h5 l
  have "raw_score semantic_example lexical_example 60 (id_sr (semantic_example ! 1))
            = Some (fadd (rrfScore_at 60 1) (rrfScore_at 60 0))"
    by (metis one_less_numeral_iff semiring_norm(76) zero_less_numeral)
  with i have b: "raw_score semantic_example lexical_example 60 2
       = Some (fadd (rrfScore_at 60 1) (rrfScore_at 60 0))"
    by simp
  have "(60::nat) + 0 + 1 < 2 ^ 53" by simp
  with rounded have "rrfScore_at 60 0 = round64 (1 / of_nat (60 + 0 + 1))" by blast
  then have c: "rrfScore_at 60 0 = round64 (1 / 61)" by simp
  from h1 h2 h3 h4 h5 a b c d show ?thesis by blast
qed

text \<open>
  C4. When one of the two lists is not empty, the fused list is not empty, its greatest
  score is 1 and every score is in \<open>(0, 1]\<close>. Two empty lists give the empty list; the
  divisor is then 1, and it is never 0.
\<close>

theorem rrf_normalized:
  "(vs \<noteq> [] \<or> ks \<noteq> [] \<longrightarrow>
      reciprocalRankFusion vs ks k \<noteq> []
      \<and> Max (similarity ` set (reciprocalRankFusion vs ks k)) = 1
      \<and> (\<forall>r \<in> set (reciprocalRankFusion vs ks k). 0 < similarity r \<and> similarity r \<le> 1))
   \<and> reciprocalRankFusion [] [] k = []
   \<and> maxScore_of (sorted_of [] [] k) = 1
   \<and> maxScore_of es \<noteq> 0"
proof (intro conjI impI)
  assume ne: "vs \<noteq> [] \<or> ks \<noteq> []"
  let ?out = "reciprocalRankFusion vs ks k"
  from rrf_nonempty_props [OF ne]
  have o: "?out \<noteq> []" and h: "similarity (hd ?out) = 1"
    and b: "\<forall>r \<in> set ?out. 0 < similarity r \<and> similarity r \<le> 1"
    by blast+
  show "?out \<noteq> []" by (rule o)
  show "\<forall>r \<in> set ?out. 0 < similarity r \<and> similarity r \<le> 1" by (rule b)
  show "Max (similarity ` set ?out) = 1"
  proof (rule Max_eqI)
    show "finite (similarity ` set ?out)" by simp
    show "y \<le> 1" if "y \<in> similarity ` set ?out" for y
      using that b by auto
    from o have "hd ?out \<in> set ?out" by simp
    with h show "1 \<in> similarity ` set ?out" by force
  qed
next
  show "reciprocalRankFusion [] [] k = []"
    by (simp add: rrf_as_map sorted_of_def sort_by_score_def scoresMap_empty)
  show "maxScore_of (sorted_of [] [] k) = 1"
    by (simp add: sorted_of_def sort_by_score_def scoresMap_empty maxScore_of_def)
  show "maxScore_of es \<noteq> 0" by (rule maxScore_nonzero)
qed


theorem rrf_normalized_witness:
  "semantic_example \<noteq> []
   \<and> reciprocalRankFusion semantic_example lexical_example 60 \<noteq> []
   \<and> Max (similarity ` set (reciprocalRankFusion semantic_example lexical_example 60)) = 1"
proof -
  have ne: "semantic_example \<noteq> []" by (simp add: semantic_example_def)
  from rrf_normalized [of semantic_example lexical_example 60] ne show ?thesis
    by blast
qed


section \<open>Retrieval and the route\<close>

lemma add_vector_from_input:
  assumes "\<forall>p \<in> set m. from_input S p" and "snd ir \<in> S"
  shows "\<forall>p \<in> set (add_vector k m ir). from_input S p"
proof
  fix p assume "p \<in> set (add_vector k m ir)"
  then have "p = vector_entry k ir \<or> p \<in> set m"
    using set_update_subset by (fastforce simp: add_vector_def vector_entry_def Let_def)
  then show "from_input S p"
  proof
    assume "p = vector_entry k ir"
    with assms(2) show ?thesis
      unfolding from_input_def vector_entry_def
      by (intro bexI [of _ "snd ir"] exI [of _ "rrfScore_at k (fst ir)"]) simp_all
  next
    assume "p \<in> set m"
    with assms(1) show ?thesis by blast
  qed
qed

lemma add_keyword_from_input:
  assumes "\<forall>p \<in> set m. from_input S p" and "snd ir \<in> S"
  shows "\<forall>p \<in> set (add_keyword k m ir). from_input S p"
proof
  fix p assume p: "p \<in> set (add_keyword k m ir)"
  let ?new = "merged_entry k (map_of m (id_sr (snd ir))) ir"
  from p have "p = (id_sr (snd ir), ?new) \<or> p \<in> set m"
    using set_update_subset
    by (fastforce simp: add_keyword_def merged_entry_def Let_def split: option.splits)
  moreover have "from_input S (id_sr (snd ir), ?new)"
  proof (cases "map_of m (id_sr (snd ir))")
    case None
    with assms(2) show ?thesis
      unfolding from_input_def merged_entry_def
      by (intro bexI [of _ "snd ir"] exI [of _ "rrfScore_at k (fst ir)"]) simp_all
  next
    case (Some ex)
    then have "(id_sr (snd ir), ex) \<in> set m" by (rule map_of_SomeD)
    with assms(1) have "from_input S (id_sr (snd ir), ex)" by blast
    then obtain r x where "r \<in> S" and "result ex = r\<lparr>similarity := x\<rparr>"
      by (auto simp: from_input_def)
    with Some show ?thesis
      unfolding from_input_def merged_entry_def
      by (intro bexI [of _ r] exI [of _ "fadd (score ex) (rrfScore_at k (fst ir))"]) simp_all
  qed
  ultimately show "from_input S p" using assms(1) by blast
qed

lemma in_enumerate_snd: "x \<in> set (List.enumerate n xs) \<Longrightarrow> snd x \<in> set xs"
  by (metis imageI map_snd_enumerate set_map)

lemma scoresMap_from_input:
  "\<forall>p \<in> set (scoresMap_of vs ks k). from_input (set vs \<union> set ks) p"
proof -
  have "\<forall>p \<in> set (foldl (add_vector k) [] (List.enumerate 0 vs)).
          from_input (set vs \<union> set ks) p"
    by (rule foldl_invariant) (auto intro: add_vector_from_input [rule_format] dest: in_enumerate_snd)
  then show ?thesis
    unfolding scoresMap_of_def
    by (rule foldl_invariant) (auto intro: add_keyword_from_input [rule_format] dest: in_enumerate_snd)
qed

lemma rrf_from_input:
  assumes "r \<in> set (reciprocalRankFusion vs ks k)"
  shows "\<exists>r' \<in> set vs \<union> set ks. \<exists>x. r = r'\<lparr>similarity := x\<rparr>"
proof -
  from assms obtain e where e: "e \<in> set (sorted_of vs ks k)"
    and r: "r = (result e)\<lparr>similarity := fdiv (score e) (maxScore_of (sorted_of vs ks k))\<rparr>"
    by (auto simp: rrf_as_map)
  from e obtain key where "(key, e) \<in> set (scoresMap_of vs ks k)"
    by (auto simp: sorted_of_set)
  with scoresMap_from_input [of vs ks k] have "from_input (set vs \<union> set ks) (key, e)"
    by blast
  then obtain r' x where "r' \<in> set vs \<union> set ks" and "result e = r'\<lparr>similarity := x\<rparr>"
    by (auto simp: from_input_def)
  with r show ?thesis by auto
qed

lemma rrf_safe:
  assumes "\<forall>r \<in> set vs. is_customer_safe r" and "\<forall>r \<in> set ks. is_customer_safe r"
  shows "\<forall>r \<in> set (reciprocalRankFusion vs ks k). is_customer_safe r"
proof
  fix r assume "r \<in> set (reciprocalRankFusion vs ks k)"
  from rrf_from_input [OF this] obtain r' x where "r' \<in> set vs \<union> set ks"
    and "r = r'\<lparr>similarity := x\<rparr>" by blast
  with assms show "is_customer_safe r" by auto
qed

lemma set_slice0: "set (slice0 xs n) \<subseteq> set xs"
  by (auto simp: slice0_def dest: in_set_takeD)

lemma slice0_Nil: "slice0 [] n = []"
  by (simp add: slice0_def)


lemma await_all_Inr:
  "await_all sv a b = Inr (ra, rb) \<longleftrightarrow> a = Inr ra \<and> b = Inr rb"
  by (auto simp: await_all_def split: sum.splits)

lemma hybridSearch_queries:
  "\<forall>sq \<in> set (queries_of (fst (hybridSearch sv query options))).
     safe_clause sq = (case customerSafeOnly_opt options of None \<Rightarrow> False | Some b \<Rightarrow> b)"
  by (auto simp: hybridSearch_def generateEmbedding_def queries_of_def Let_def
      split: sum.splits prod.splits)

lemma searchKnowledge_queries:
  "\<forall>sq \<in> set (queries_of (fst (searchKnowledge sv query options))).
     safe_clause sq = (case customerSafeOnly_opt options of None \<Rightarrow> False | Some b \<Rightarrow> b)"
  by (auto simp: searchKnowledge_def generateEmbedding_def queries_of_def Let_def
      split: sum.splits prod.splits)

lemma hybridSearch_Inr:
  assumes "hybridSearch sv query options = (events, Inr results)"
  obtains vq kq vectorRows keywordRows where
    "safe_clause vq = (case customerSafeOnly_opt options of None \<Rightarrow> False | Some b \<Rightarrow> b)"
    "safe_clause kq = (case customerSafeOnly_opt options of None \<Rightarrow> False | Some b \<Rightarrow> b)"
    "pool_query sv vq = Inr vectorRows" "pool_query sv kq = Inr keywordRows"
    "set results \<subseteq> set (reciprocalRankFusion vectorRows keywordRows 60)"
    "vectorRows = [] \<and> keywordRows = [] \<longrightarrow> results = []"
proof -
  from assms obtain emb where emb: "embed sv query = Inr emb"
    by (auto simp: hybridSearch_def generateEmbedding_def Let_def split: sum.splits)
  let ?safe = "case customerSafeOnly_opt options of None \<Rightarrow> False | Some b \<Rightarrow> b"
  let ?chan = "if truthy_string (channelId_opt options) then channelId_opt options else None"
  let ?lim = "case limit_opt options of None \<Rightarrow> 10 | Some n \<Rightarrow> n"
  let ?min = "case minSimilarity_opt options of None \<Rightarrow> number_0_3 | Some x \<Rightarrow> x"
  let ?vq = "\<lparr> kind = VectorSql emb, safe_clause = ?safe, truth_clause = False,
               channel_clause = ?chan, limit_param = ?lim * 2 \<rparr>"
  let ?kq = "\<lparr> kind = KeywordSql query, safe_clause = ?safe, truth_clause = False,
               channel_clause = ?chan, limit_param = ?lim * 2 \<rparr>"
  from assms emb obtain vectorRows keywordRows where
    aw: "await_all sv (pool_query sv ?vq) (pool_query sv ?kq) = Inr (vectorRows, keywordRows)"
    and res: "results = slice0 (filter (above_threshold ?min)
                 (reciprocalRankFusion vectorRows keywordRows 60)) ?lim"
    by (auto simp: hybridSearch_def generateEmbedding_def Let_def split: sum.splits)
  from aw have v: "pool_query sv ?vq = Inr vectorRows" and k: "pool_query sv ?kq = Inr keywordRows"
    by (simp_all add: await_all_Inr)
  from res have sub: "set results \<subseteq> set (reciprocalRankFusion vectorRows keywordRows 60)"
    using set_slice0 by fastforce
  from res have e: "vectorRows = [] \<and> keywordRows = [] \<longrightarrow> results = []"
    by (auto simp: rrf_as_map sorted_of_def sort_by_score_def scoresMap_empty slice0_Nil)
  show ?thesis
    by (rule that [of ?vq ?kq, OF _ _ v k sub e]) simp_all
qed

lemma searchKnowledge_Inr:
  assumes "searchKnowledge sv query options = (events, Inr results)"
  obtains sq rows where
    "safe_clause sq = (case customerSafeOnly_opt options of None \<Rightarrow> False | Some b \<Rightarrow> b)"
    "pool_query sv sq = Inr rows"
    "set results \<subseteq> set rows"
    "rows = [] \<longrightarrow> results = []"
proof -
  from assms obtain emb where emb: "embed sv query = Inr emb"
    by (auto simp: searchKnowledge_def generateEmbedding_def Let_def split: sum.splits)
  let ?safe = "case customerSafeOnly_opt options of None \<Rightarrow> False | Some b \<Rightarrow> b"
  let ?truth = "case sourceOfTruthOnly_opt options of None \<Rightarrow> False | Some b \<Rightarrow> b"
  let ?chan = "if truthy_string (channelId_opt options) then channelId_opt options else None"
  let ?lim = "case limit_opt options of None \<Rightarrow> 5 | Some n \<Rightarrow> n"
  let ?min = "case minSimilarity_opt options of None \<Rightarrow> number_0_3 | Some x \<Rightarrow> x"
  let ?sq = "\<lparr> kind = VectorSql emb, safe_clause = ?safe, truth_clause = ?truth,
               channel_clause = ?chan, limit_param = ?lim * 2 \<rparr>"
  from assms emb obtain rows where
    q: "pool_query sv ?sq = Inr rows"
    and res: "results = slice0 (filter (above_threshold ?min) rows) ?lim"
    by (auto simp: searchKnowledge_def generateEmbedding_def Let_def split: sum.splits)
  from res have sub: "set results \<subseteq> set rows"
    using set_slice0 by fastforce
  from res have e: "rows = [] \<longrightarrow> results = []"
    by (auto simp: slice0_Nil)
  show ?thesis
    by (rule that [of ?sq, OF _ q sub e]) simp
qed

lemma retrieve_hybrid_success:
  assumes "embed sv q = Inr emb"
    and "pool_query sv (customer_vector_query emb l) = Inr vectorRows"
    and "pool_query sv (customer_keyword_query q l) = Inr keywordRows"
  shows "retrieve_for_ask sv q ''customer'' l True ms =
     ([Embed q, Query (customer_vector_query emb l), Query (customer_keyword_query q l)],
      Inr (slice0 (filter (above_threshold ms) (reciprocalRankFusion vectorRows keywordRows 60)) l))"
  using assms
  by (simp add: retrieve_for_ask_def hybridSearch_def generateEmbedding_def Let_def
      truthy_string_def await_all_def customer_vector_query_def customer_keyword_query_def)

lemma retrieve_vector_success:
  assumes "embed sv q = Inr emb"
    and "pool_query sv (customer_vector_query emb l) = Inr rows"
  shows "retrieve_for_ask sv q ''customer'' l False ms =
     ([Embed q, Query (customer_vector_query emb l)],
      Inr (slice0 (filter (above_threshold ms) rows) l))"
  using assms
  by (simp add: retrieve_for_ask_def searchKnowledge_def generateEmbedding_def Let_def
      truthy_string_def customer_vector_query_def)

lemma retrieve_customer_query_list:
  assumes "embed sv q = Inr emb"
  shows "queries_of (fst (retrieve_for_ask sv q ''customer'' l h ms)) =
     (if h then [customer_vector_query emb l, customer_keyword_query q l]
      else [customer_vector_query emb l])"
  using assms
  by (simp add: retrieve_for_ask_def hybridSearch_def searchKnowledge_def
      generateEmbedding_def Let_def truthy_string_def queries_of_def
      customer_vector_query_def customer_keyword_query_def split: sum.splits)

lemma retrieve_customer_queries:
  "\<forall>sq \<in> set (queries_of (fst (retrieve_for_ask sv q ''customer'' l h ms))). safe_clause sq"
  using hybridSearch_queries searchKnowledge_queries
  by (cases h) (fastforce simp: retrieve_for_ask_def)+

lemma retrieve_customer_safe:
  assumes "store_honours_safe_clause sv"
    and "retrieve_for_ask sv q ''customer'' l h ms = (events, Inr results)"
  shows "\<forall>r \<in> set results. is_customer_safe r"
proof (cases h)
  case True
  with assms(2) have "hybridSearch sv q
        \<lparr> limit_opt = Some l, customerSafeOnly_opt = Some True, sourceOfTruthOnly_opt = None,
          channelId_opt = None, minSimilarity_opt = Some ms \<rparr> = (events, Inr results)"
    by (simp add: retrieve_for_ask_def)
  then obtain vq kq vectorRows keywordRows where
    "safe_clause vq" "safe_clause kq"
    "pool_query sv vq = Inr vectorRows" "pool_query sv kq = Inr keywordRows"
    and sub: "set results \<subseteq> set (reciprocalRankFusion vectorRows keywordRows 60)"
    by (rule hybridSearch_Inr) simp
  with assms(1) have "\<forall>r \<in> set vectorRows. is_customer_safe r"
    and "\<forall>r \<in> set keywordRows. is_customer_safe r"
    unfolding store_honours_safe_clause_def by blast+
  then have "\<forall>r \<in> set (reciprocalRankFusion vectorRows keywordRows 60). is_customer_safe r"
    by (rule rrf_safe)
  with sub show ?thesis by blast
next
  case False
  with assms(2) have "searchKnowledge sv q
        \<lparr> limit_opt = Some l, customerSafeOnly_opt = Some True, sourceOfTruthOnly_opt = None,
          channelId_opt = None, minSimilarity_opt = Some ms \<rparr> = (events, Inr results)"
    by (simp add: retrieve_for_ask_def)
  then obtain sq rows where "safe_clause sq" "pool_query sv sq = Inr rows"
    and sub: "set results \<subseteq> set rows"
    by (rule searchKnowledge_Inr) simp
  with assms(1) have "\<forall>r \<in> set rows. is_customer_safe r"
    unfolding store_honours_safe_clause_def by blast
  with sub show ?thesis by blast
qed

lemma retrieve_customer_no_safe_rows:
  assumes "store_honours_safe_clause sv"
    and none: "\<forall>sq rows. pool_query sv sq = Inr rows \<longrightarrow> \<not> list_ex is_customer_safe rows"
    and "retrieve_for_ask sv q ''customer'' l h ms = (events, Inr results)"
  shows "results = []"
proof -
  have empty: "rows = []" if "safe_clause sq" and "pool_query sv sq = Inr rows" for sq rows
  proof -
    from assms(1) that have "\<forall>r \<in> set rows. is_customer_safe r"
      unfolding store_honours_safe_clause_def by blast
    moreover from none that(2) have "\<forall>r \<in> set rows. \<not> is_customer_safe r"
      by (auto simp: list_ex_iff)
    ultimately show ?thesis by (cases rows) auto
  qed
  show ?thesis
  proof (cases h)
    case True
    with assms(3) have "hybridSearch sv q
        \<lparr> limit_opt = Some l, customerSafeOnly_opt = Some True, sourceOfTruthOnly_opt = None,
          channelId_opt = None, minSimilarity_opt = Some ms \<rparr> = (events, Inr results)"
      by (simp add: retrieve_for_ask_def)
    then obtain vq kq vectorRows keywordRows where
      "safe_clause vq" "safe_clause kq"
      "pool_query sv vq = Inr vectorRows" "pool_query sv kq = Inr keywordRows"
      "vectorRows = [] \<and> keywordRows = [] \<longrightarrow> results = []"
      by (rule hybridSearch_Inr) simp
    with empty show ?thesis by blast
  next
    case False
    with assms(3) have "searchKnowledge sv q
        \<lparr> limit_opt = Some l, customerSafeOnly_opt = Some True, sourceOfTruthOnly_opt = None,
          channelId_opt = None, minSimilarity_opt = Some ms \<rparr> = (events, Inr results)"
      by (simp add: retrieve_for_ask_def)
    then obtain sq rows where "safe_clause sq" "pool_query sv sq = Inr rows"
      "rows = [] \<longrightarrow> results = []"
      by (rule searchKnowledge_Inr) simp
    with empty show ?thesis by blast
  qed
qed


lemma queries_of_append: "queries_of (xs @ ys) = queries_of xs @ queries_of ys"
  by (simp add: queries_of_def)

lemma queries_of_generate: "queries_of (map Generate calls) = []"
  by (induction calls) (simp_all add: queries_of_def)

lemma list_ex_generate: "list_ex is_generate (map Generate calls) \<longleftrightarrow> calls \<noteq> []"
  by (cases calls) (auto simp: list_ex_iff is_generate_def)

lemma ask_route_customer:
  assumes "question_b body = Some q" and "q \<noteq> []" and "mode_b body = Some ''customer''"
  shows "ask_route sv body =
     (case retrieve_for_ask sv q ''customer'' (ask_limit body) (ask_useHybrid body)
             (ask_minSimilarity body) of
        (events, Inl e) \<Rightarrow> (events, Status500 ''Failed to process question'')
      | (events, Inr results) \<Rightarrow>
          (case generateAnswerWithCitations (generateText sv) q results Customer of
             (calls, Inl e) \<Rightarrow>
               (events @ map Generate calls, Status500 ''Failed to process question'')
           | (calls, Inr ans) \<Rightarrow>
               (events @ map Generate calls,
                Json200
                  \<lparr> question_r = q,
                    answer_r = answer ans,
                    mode_r = mode ans,
                    searchMethod_r = (if ask_useHybrid body then ''hybrid'' else ''vector''),
                    canCiteForCustomer_r = canCiteForCustomer ans,
                    citations_r = numbered (\<lambda>i cite. (i + 1, cite)) (citations ans) \<rparr>)))"
  using assms
  by (simp add: ask_route_def ask_mode_def truthy_string_def Let_def
      cong: prod.case_cong sum.case_cong)

lemma ask_route_customer_query_events:
  assumes "question_b body = Some q" and "q \<noteq> []" and "mode_b body = Some ''customer''"
  shows "queries_of (fst (ask_route sv body))
         = queries_of (fst (retrieve_for_ask sv q ''customer'' (ask_limit body)
                              (ask_useHybrid body) (ask_minSimilarity body)))"
  by (simp add: ask_route_customer [OF assms] queries_of_append queries_of_generate
      split: prod.splits sum.splits)

lemma ask_route_customer_queries:
  assumes "question_b body = Some q" and "q \<noteq> []" and "mode_b body = Some ''customer''"
  shows "\<forall>sq \<in> set (queries_of (fst (ask_route sv body))). safe_clause sq"
  using retrieve_customer_queries [of sv q "ask_limit body" "ask_useHybrid body"
      "ask_minSimilarity body"]
  by (simp add: ask_route_customer_query_events [OF assms])

lemma ask_route_customer_query_list:
  assumes "question_b body = Some q" and "q \<noteq> []" and "mode_b body = Some ''customer''"
    and "embed sv q = Inr emb"
  shows "queries_of (fst (ask_route sv body)) =
     (if ask_useHybrid body
      then [customer_vector_query emb (ask_limit body), customer_keyword_query q (ask_limit body)]
      else [customer_vector_query emb (ask_limit body)])"
  by (simp only: ask_route_customer_query_events [OF assms(1-3)]
      retrieve_customer_query_list [OF assms(4)])

lemma ask_route_customer_not_blocked:
  assumes "question_b body = Some q" and "q \<noteq> []" and "mode_b body = Some ''customer''"
    and h: "store_honours_safe_clause sv"
    and run: "ask_route sv body = (events, Json200 p)"
    and quiet: "\<not> list_ex is_generate events"
  shows "p = no_results_payload q (ask_useHybrid body)"
proof -
  from run obtain ev results calls ans where
    r: "retrieve_for_ask sv q ''customer'' (ask_limit body) (ask_useHybrid body)
          (ask_minSimilarity body) = (ev, Inr results)"
    and g: "generateAnswerWithCitations (generateText sv) q results Customer = (calls, Inr ans)"
    and e: "events = ev @ map Generate calls"
    and p: "p = \<lparr> question_r = q, answer_r = answer ans, mode_r = mode ans,
                  searchMethod_r = (if ask_useHybrid body then ''hybrid'' else ''vector''),
                  canCiteForCustomer_r = canCiteForCustomer ans,
                  citations_r = numbered (\<lambda>i cite. (i + 1, cite)) (citations ans) \<rparr>"
    by (auto simp: ask_route_customer [OF assms(1-3)] split: prod.splits sum.splits)
  from quiet e have c: "calls = []" by (simp add: list_ex_generate)
  from retrieve_customer_safe [OF h r] have safe: "\<forall>r \<in> set results. is_customer_safe r" .
  from g show ?thesis
  proof (cases rule: generate_Inr_cases)
    case no_results
    with p show ?thesis by (simp add: no_results_payload_def numbered_def)
  next
    case blocked
    from safe have "filter is_customer_safe results = results" by simp
    with blocked show ?thesis by (simp add: relevantResults_of_def)
  next
    case (irrelevant verdict)
    with c show ?thesis by simp
  next
    case (answered verdict raw)
    with c show ?thesis by simp
  qed
qed

lemma ask_route_customer_no_safe_rows:
  assumes "question_b body = Some q" and "q \<noteq> []" and "mode_b body = Some ''customer''"
    and h: "store_honours_safe_clause sv"
    and none: "\<forall>sq rows. pool_query sv sq = Inr rows \<longrightarrow> \<not> list_ex is_customer_safe rows"
  shows "snd (ask_route sv body) = Status500 ''Failed to process question''
         \<or> snd (ask_route sv body) = Json200 (no_results_payload q (ask_useHybrid body))"
proof -
  let ?r = "retrieve_for_ask sv q ''customer'' (ask_limit body) (ask_useHybrid body)
             (ask_minSimilarity body)"
  obtain ev res where r: "?r = (ev, res)" by (cases ?r)
  show ?thesis
  proof (cases res)
    case (Inl e)
    with r show ?thesis by (simp add: ask_route_customer [OF assms(1-3)])
  next
    case (Inr results)
    with r retrieve_customer_no_safe_rows [OF h none] have "results = []" by blast
    with r Inr show ?thesis
      by (simp add: ask_route_customer [OF assms(1-3)] generate_no_results
          no_results_payload_def numbered_def)
  qed
qed


text \<open>
  C9. When the embedding call fails, \<open>hybridSearch\<close> fails with the same error and gives no
  result; the failure comes before any query is sent to the store, so no list is built
  from the keyword channel alone.
\<close>

theorem embedding_failure_fails_search:
  assumes "embed sv query = Inl e"
  shows "hybridSearch sv query options = ([Embed query, ConsoleError e], Inl e)
         \<and> queries_of (fst (hybridSearch sv query options)) = []"
  using assms
  by (simp add: hybridSearch_def generateEmbedding_def queries_of_def Let_def)

theorem embedding_failure_fails_search_witness:
  "embed down_services ''How does authentication work?''
     = Inl (Thrown ''embedding service unavailable'')
   \<and> hybridSearch down_services ''How does authentication work?''
       \<lparr> limit_opt = Some 5, customerSafeOnly_opt = Some False, sourceOfTruthOnly_opt = None,
         channelId_opt = None, minSimilarity_opt = Some number_0_2 \<rparr>
     = ([Embed ''How does authentication work?'',
         ConsoleError (Thrown ''embedding service unavailable'')],
        Inl (Thrown ''embedding service unavailable''))"
proof -
  have h: "embed down_services ''How does authentication work?''
     = Inl (Thrown ''embedding service unavailable'')"
    by (simp add: down_services_def)
  from embedding_failure_fails_search [OF h] h show ?thesis
    by blast
qed

text \<open>
  C10. For a request to \<open>POST /api/ask\<close> with a question and mode \<open>customer\<close>: once the
  embedding is there, the route sends the vector query, and with hybrid search the keyword
  query too, each with the customer-safe clause, and it sends no other query; the search
  results are the rows the store gives for these queries, fused (with hybrid search),
  filtered by the threshold and cut to the limit. When the store honours the clause,
  every search result handed to \<open>generateAnswerWithCitations\<close> is customer-safe and the
  guard of the internal-only return is false; a response made without a generation call
  is then the insufficient-information answer; and when the store has no customer-safe
  row for any query, the response is that answer (or the error response, when a service
  fails).
\<close>

theorem customer_route_pushes_filter:
  assumes "question_b body = Some q" and "q \<noteq> []" and "mode_b body = Some ''customer''"
  shows
    "(\<forall>sq \<in> set (queries_of (fst (ask_route sv body))). safe_clause sq)
     \<and> (\<forall>emb. embed sv q = Inr emb \<longrightarrow>
           queries_of (fst (ask_route sv body)) =
             (if ask_useHybrid body
              then [customer_vector_query emb (ask_limit body),
                    customer_keyword_query q (ask_limit body)]
              else [customer_vector_query emb (ask_limit body)]))
     \<and> (\<forall>emb vectorRows keywordRows.
           embed sv q = Inr emb \<longrightarrow>
           pool_query sv (customer_vector_query emb (ask_limit body)) = Inr vectorRows \<longrightarrow>
           pool_query sv (customer_keyword_query q (ask_limit body)) = Inr keywordRows \<longrightarrow>
           retrieve_for_ask sv q ''customer'' (ask_limit body) True (ask_minSimilarity body) =
             ([Embed q, Query (customer_vector_query emb (ask_limit body)),
               Query (customer_keyword_query q (ask_limit body))],
              Inr (slice0 (filter (above_threshold (ask_minSimilarity body))
                             (reciprocalRankFusion vectorRows keywordRows 60))
                     (ask_limit body))))
     \<and> (\<forall>emb rows.
           embed sv q = Inr emb \<longrightarrow>
           pool_query sv (customer_vector_query emb (ask_limit body)) = Inr rows \<longrightarrow>
           retrieve_for_ask sv q ''customer'' (ask_limit body) False (ask_minSimilarity body) =
             ([Embed q, Query (customer_vector_query emb (ask_limit body))],
              Inr (slice0 (filter (above_threshold (ask_minSimilarity body)) rows)
                     (ask_limit body))))
     \<and> (store_honours_safe_clause sv \<longrightarrow>
          (\<forall>events results.
              retrieve_for_ask sv q ''customer'' (ask_limit body) (ask_useHybrid body)
                (ask_minSimilarity body) = (events, Inr results) \<longrightarrow>
              (\<forall>r \<in> set results. is_customer_safe r)
              \<and> \<not> (results \<noteq> [] \<and> length (relevantResults_of Customer results) = 0))
          \<and> (\<forall>events p.
                ask_route sv body = (events, Json200 p) \<longrightarrow> \<not> list_ex is_generate events \<longrightarrow>
                p = no_results_payload q (ask_useHybrid body))
          \<and> ((\<forall>sq rows. pool_query sv sq = Inr rows \<longrightarrow> \<not> list_ex is_customer_safe rows) \<longrightarrow>
                snd (ask_route sv body) = Status500 ''Failed to process question''
                \<or> snd (ask_route sv body) = Json200 (no_results_payload q (ask_useHybrid body))))"
proof (intro conjI impI allI)
  show "\<forall>sq \<in> set (queries_of (fst (ask_route sv body))). safe_clause sq"
    using assms by (rule ask_route_customer_queries)
next
  fix emb assume "embed sv q = Inr emb"
  with assms show "queries_of (fst (ask_route sv body)) =
             (if ask_useHybrid body
              then [customer_vector_query emb (ask_limit body),
                    customer_keyword_query q (ask_limit body)]
              else [customer_vector_query emb (ask_limit body)])"
    by (rule ask_route_customer_query_list)
next
  fix emb vectorRows keywordRows
  assume "embed sv q = Inr emb"
    and "pool_query sv (customer_vector_query emb (ask_limit body)) = Inr vectorRows"
    and "pool_query sv (customer_keyword_query q (ask_limit body)) = Inr keywordRows"
  then show "retrieve_for_ask sv q ''customer'' (ask_limit body) True (ask_minSimilarity body) =
             ([Embed q, Query (customer_vector_query emb (ask_limit body)),
               Query (customer_keyword_query q (ask_limit body))],
              Inr (slice0 (filter (above_threshold (ask_minSimilarity body))
                             (reciprocalRankFusion vectorRows keywordRows 60))
                     (ask_limit body)))"
    by (rule retrieve_hybrid_success)
next
  fix emb rows
  assume "embed sv q = Inr emb"
    and "pool_query sv (customer_vector_query emb (ask_limit body)) = Inr rows"
  then show "retrieve_for_ask sv q ''customer'' (ask_limit body) False (ask_minSimilarity body) =
             ([Embed q, Query (customer_vector_query emb (ask_limit body))],
              Inr (slice0 (filter (above_threshold (ask_minSimilarity body)) rows)
                     (ask_limit body)))"
    by (rule retrieve_vector_success)
next
  fix events results
  assume h: "store_honours_safe_clause sv"
    and r: "retrieve_for_ask sv q ''customer'' (ask_limit body) (ask_useHybrid body)
                (ask_minSimilarity body) = (events, Inr results)"
  from retrieve_customer_safe [OF h r]
  show safe: "\<forall>r \<in> set results. is_customer_safe r" .
  then have "filter is_customer_safe results = results" by simp
  then show "\<not> (results \<noteq> [] \<and> length (relevantResults_of Customer results) = 0)"
    by (simp add: relevantResults_of_def)
next
  fix events p
  assume "store_honours_safe_clause sv" and "ask_route sv body = (events, Json200 p)"
    and "\<not> list_ex is_generate events"
  with assms show "p = no_results_payload q (ask_useHybrid body)"
    by (rule ask_route_customer_not_blocked)
next
  assume "store_honours_safe_clause sv"
    and "\<forall>sq rows. pool_query sv sq = Inr rows \<longrightarrow> \<not> list_ex is_customer_safe rows"
  with assms show "snd (ask_route sv body) = Status500 ''Failed to process question''
      \<or> snd (ask_route sv body) = Json200 (no_results_payload q (ask_useHybrid body))"
    by (rule ask_route_customer_no_safe_rows)
qed

theorem customer_route_pushes_filter_witness:
  "question_b vector_customer_body = Some ''How does authentication work?''
   \<and> mode_b vector_customer_body = Some ''customer''
   \<and> store_honours_safe_clause mixed_store_services
   \<and> embed mixed_store_services ''How does authentication work?'' = Inr [1 / 2, 1 / 4]
   \<and> pool_query mixed_store_services (customer_vector_query [1 / 2, 1 / 4] 5)
       = Inr [createMockResult 2 ''Public help article about authentication'' True,
              createMockResult 4 ''Official API documentation'' True]
   \<and> queries_of (fst (ask_route mixed_store_services vector_customer_body))
       = [customer_vector_query [1 / 2, 1 / 4] 5]
   \<and> retrieve_for_ask mixed_store_services ''How does authentication work?'' ''customer'' 5
        False number_0_2
       = ([Embed ''How does authentication work?'', Query (customer_vector_query [1 / 2, 1 / 4] 5)],
          Inr [createMockResult 2 ''Public help article about authentication'' True,
               createMockResult 4 ''Official API documentation'' True])
   \<and> snd (ask_route mixed_store_services vector_customer_body)
       = Json200
           \<lparr> question_r = ''How does authentication work?'',
             answer_r = ''Use tokens [1], see [2].'',
             mode_r = Customer, searchMethod_r = ''vector'', canCiteForCustomer_r = True,
             citations_r =
               [(1, toCitation (createMockResult 2 ''Public help article about authentication'' True)),
                (2, toCitation (createMockResult 4 ''Official API documentation'' True))] \<rparr>
   \<and> question_b customer_body = Some ''What is the deployment process?''
   \<and> mode_b customer_body = Some ''customer''
   \<and> store_honours_safe_clause internal_only_services
   \<and> \<not> list_ex is_customer_safe internal_sources
   \<and> queries_of (fst (ask_route internal_only_services customer_body))
       = [customer_vector_query [1 / 2, 1 / 4] 5,
          customer_keyword_query ''What is the deployment process?'' 5]
   \<and> snd (ask_route internal_only_services customer_body)
       = Json200 (no_results_payload ''What is the deployment process?'' True)"
proof -
  let ?Q = "''How does authentication work?''"
  let ?rows = "[createMockResult 2 ''Public help article about authentication'' True,
                createMockResult 4 ''Official API documentation'' True]"
  have vq: "question_b vector_customer_body = Some ?Q"
    and vne: "?Q \<noteq> []"
    and vmd: "mode_b vector_customer_body = Some ''customer''"
    and vhy: "ask_useHybrid vector_customer_body = False"
    and vli: "ask_limit vector_customer_body = 5"
    and vms: "ask_minSimilarity vector_customer_body = number_0_2"
    by (simp_all add: vector_customer_body_def ask_useHybrid_def ask_limit_def
        ask_minSimilarity_def)
  have vh: "store_honours_safe_clause mixed_store_services"
    by (auto simp: store_honours_safe_clause_def mixed_store_services_def)
  have ve: "embed mixed_store_services ?Q = Inr [1 / 2, 1 / 4]"
    by (simp add: mixed_store_services_def)
  have vr: "pool_query mixed_store_services (customer_vector_query [1 / 2, 1 / 4] 5) = Inr ?rows"
    by (simp add: mixed_store_services_def customer_vector_query_def mixed_sources_def
        createMockResult_def)
  have cut: "slice0 (filter (above_threshold number_0_2) ?rows) 5 = ?rows"
    by code_simp
  have vans: "snd (ask_route mixed_store_services vector_customer_body)
       = Json200
           \<lparr> question_r = ?Q,
             answer_r = ''Use tokens [1], see [2].'',
             mode_r = Customer, searchMethod_r = ''vector'', canCiteForCustomer_r = True,
             citations_r =
               [(1, toCitation (createMockResult 2 ''Public help article about authentication'' True)),
                (2, toCitation (createMockResult 4 ''Official API documentation'' True))] \<rparr>"
    by code_simp
  note vinst = customer_route_pushes_filter [OF vq vne vmd, of mixed_store_services]
  from vinst ve vhy vli
  have vqs: "queries_of (fst (ask_route mixed_store_services vector_customer_body))
       = [customer_vector_query [1 / 2, 1 / 4] 5]"
    by simp
  from vinst ve vr vli vms cut
  have vret: "retrieve_for_ask mixed_store_services ?Q ''customer'' 5 False number_0_2
       = ([Embed ?Q, Query (customer_vector_query [1 / 2, 1 / 4] 5)], Inr ?rows)"
    by simp
  let ?P = "''What is the deployment process?''"
  have q: "question_b customer_body = Some ?P"
    and ne: "?P \<noteq> []"
    and md: "mode_b customer_body = Some ''customer''"
    and hy: "ask_useHybrid customer_body = True"
    and li: "ask_limit customer_body = 5"
    by (simp_all add: customer_body_def ask_useHybrid_def ask_limit_def)
  have h: "store_honours_safe_clause internal_only_services"
    by (auto simp: store_honours_safe_clause_def internal_only_services_def)
  have e: "embed internal_only_services ?P = Inr [1 / 2, 1 / 4]"
    by (simp add: internal_only_services_def)
  have u: "\<not> list_ex is_customer_safe internal_sources"
    by (simp add: internal_sources_def createMockResult_def)
  then have none: "\<forall>sq rows. pool_query internal_only_services sq = Inr rows \<longrightarrow>
      \<not> list_ex is_customer_safe rows"
    by (auto simp: internal_only_services_def list_ex_iff)
  have ok: "snd (ask_route internal_only_services customer_body)
       \<noteq> Status500 ''Failed to process question''"
    by code_simp
  note inst = customer_route_pushes_filter [OF q ne md, of internal_only_services]
  from inst e hy li
  have qs: "queries_of (fst (ask_route internal_only_services customer_body))
       = [customer_vector_query [1 / 2, 1 / 4] 5, customer_keyword_query ?P 5]"
    by simp
  from inst h none
  have "snd (ask_route internal_only_services customer_body)
          = Status500 ''Failed to process question''
        \<or> snd (ask_route internal_only_services customer_body)
          = Json200 (no_results_payload ?P (ask_useHybrid customer_body))"
    by blast
  with ok hy have ans: "snd (ask_route internal_only_services customer_body)
       = Json200 (no_results_payload ?P True)"
    by simp
  from vq vmd vh ve vr vqs vret vans q md h u qs ans show ?thesis
    by blast
qed

end
